theory Spec2Isabelle
  imports Complex_Main "HOL-Library.Code_Target_Numeral"
begin

section \<open>Numbers\<close>

text \<open>
  A JavaScript number is an IEEE 754 double: \<open>NaN\<close>, an infinity with its sign, or a sign
  and a magnitude (the sign is \<open>True\<close> for a negative number, and the two zeros are the
  magnitude 0 with either sign). A magnitude is a real number; the magnitudes of doubles
  are the fixed points of \<open>round_magnitude\<close> below \<open>2 ^ 1024\<close>. Every arithmetic
  operation computes the exact real result and rounds it to the nearest double, ties to
  the even significand, as the default rounding mode of IEEE 754 does.

  The arithmetic of \<open>generateEqualChapters\<close> is modelled on this type. Where the source only
  compares, clamps and assigns the times of a media element, times are real numbers and
  an unknown duration (\<open>NaN\<close>) is \<open>None\<close>.
\<close>

datatype number = NaN | Infinity bool | Finite bool real

text \<open>The position of the leading bit of a positive natural number.\<close>

fun ilog2 :: "nat \<Rightarrow> nat" where
  "ilog2 n = (if n < 2 then 0 else Suc (ilog2 (n div 2)))"

declare ilog2.simps [simp del]

text \<open>The binary exponent \<open>e\<close> of a positive magnitude \<open>m\<close>: \<open>2 ^ e \<le> m < 2 ^ (e + 1)\<close>.\<close>

definition exponent :: "real \<Rightarrow> int" where
  "exponent m =
     (if 1 \<le> m then int (ilog2 (nat \<lfloor>m\<rfloor>))
      else - int (ilog2 (nat (\<lceil>1 / m\<rceil> - 1))) - 1)"

text \<open>
  The distance between the doubles around \<open>m\<close>: a significand has 52 bits below the
  leading one, and the exponent does not go below -1022 (the subnormal range).
\<close>

definition ulp :: "real \<Rightarrow> real" where
  "ulp m = 2 powi (max (exponent m) (- 1022) - 52)"

definition round_half_even :: "real \<Rightarrow> int" where
  "round_half_even y =
     (let f = \<lfloor>y\<rfloor>; r = y - of_int f
      in if r < 1 / 2 then f
         else if 1 / 2 < r then f + 1
         else if even f then f else f + 1)"

definition round_magnitude :: "real \<Rightarrow> real" where
  "round_magnitude m =
     (if m = 0 then 0 else of_int (round_half_even (m / ulp m)) * ulp m)"

text \<open>
  The least positive double, the least normal double, and the bound of the finite
  doubles: a result whose rounded magnitude reaches it is an infinity.
\<close>

definition least_double :: real where
  "least_double = 2 powi (- 1074)"

definition least_normal :: real where
  "least_normal = 2 powi (- 1022)"

definition huge :: real where
  "huge = 2 ^ 1024"

definition to_double :: "bool \<Rightarrow> real \<Rightarrow> number" where
  "to_double negative m =
     (let r = round_magnitude m
      in if huge \<le> r then Infinity negative else Finite negative r)"

definition is_double :: "real \<Rightarrow> bool" where
  "is_double m \<longleftrightarrow> 0 \<le> m \<and> m < huge \<and> round_magnitude m = m"

text \<open>
  The magnitudes of the finite doubles as IEEE 754 encodes them: a significand of at most
  53 bits, scaled by a power of two from \<open>2 ^ -1074\<close> to \<open>2 ^ 971\<close>.
\<close>

definition representable :: "real \<Rightarrow> bool" where
  "representable y \<longleftrightarrow>
     (\<exists>(k::nat) (e::int). y = real k * 2 powi e \<and> k < 2 ^ 53 \<and> - 1074 \<le> e \<and> e \<le> 971)"

definition signed :: "bool \<Rightarrow> real \<Rightarrow> real" where
  "signed negative m = (if negative then - m else m)"

text \<open>The operators \<open>*\<close>, \<open>/\<close> and \<open><\<close> on numbers.\<close>

fun js_times :: "number \<Rightarrow> number \<Rightarrow> number" where
  "js_times NaN y = NaN"
| "js_times x NaN = NaN"
| "js_times (Infinity s) (Infinity t) = Infinity (s \<noteq> t)"
| "js_times (Infinity s) (Finite t y) = (if y = 0 then NaN else Infinity (s \<noteq> t))"
| "js_times (Finite s x) (Infinity t) = (if x = 0 then NaN else Infinity (s \<noteq> t))"
| "js_times (Finite s x) (Finite t y) = to_double (s \<noteq> t) (x * y)"

fun js_divide :: "number \<Rightarrow> number \<Rightarrow> number" where
  "js_divide NaN y = NaN"
| "js_divide x NaN = NaN"
| "js_divide (Infinity s) (Infinity t) = NaN"
| "js_divide (Infinity s) (Finite t y) = Infinity (s \<noteq> t)"
| "js_divide (Finite s x) (Infinity t) = Finite (s \<noteq> t) 0"
| "js_divide (Finite s x) (Finite t y) =
     (if y = 0 then (if x = 0 then NaN else Infinity (s \<noteq> t))
      else to_double (s \<noteq> t) (x / y))"

fun js_less :: "number \<Rightarrow> number \<Rightarrow> bool" where
  "js_less NaN y = False"
| "js_less x NaN = False"
| "js_less (Infinity s) (Infinity t) = (s \<and> \<not> t)"
| "js_less (Infinity s) (Finite t y) = s"
| "js_less (Finite s x) (Infinity t) = (\<not> t)"
| "js_less (Finite s x) (Finite t y) = (signed s x < signed t y)"

section \<open>Exceptions\<close>

text \<open>
  An exception is its constructor and its message; a message that the source completes
  with run-time details (an error code, the exception caught) is kept up to its fixed
  first words.
\<close>

datatype js_error = Error string | TypeError string | RangeError string | DOMException string

section \<open>Chapters\<close>

text \<open>
  A chapter definition is a title and a start time, a chapter record has a thumbnail as
  well. The start times that \<open>generateEqualChapters\<close> computes are numbers; the start times
  that the other operations only pass on and compare are real numbers.
\<close>

record 't chapter_definition =
  title :: string
  startTime :: 't

type_synonym chapter_def = "real chapter_definition"

record chapter_record = "real chapter_definition" +
  thumbnailUrl :: "string option"

subsection \<open>generateEqualChapters\<close>

text \<open>The decimal rendering of a non-negative integer, as a template literal prints it.\<close>

fun string_of_nat :: "nat \<Rightarrow> string" where
  "string_of_nat n =
     (if n < 10 then [''0123456789'' ! n]
      else string_of_nat (n div 10) @ [''0123456789'' ! (n mod 10)])"

declare string_of_nat.simps [simp del]

text \<open>
  The loop \<open>for (let i = 0; i < numChapters; i++) chapters.push({...})\<close>, with the array
  built so far as an accumulator. An array holds at most \<open>2 ^ 32 - 1\<close> elements: a \<open>push\<close>
  onto an array of that length throws a \<open>RangeError\<close> (an engine may run out of memory
  before). The counter therefore stays below \<open>2 ^ 32\<close>, where \<open>i++\<close> and \<open>i + 1\<close> are exact, and
  is a natural number here; \<open>i < numChapters\<close> and \<open>i * segmentDuration\<close> are operations on
  numbers.
\<close>

function equalChapters_loop ::
  "number \<Rightarrow> number \<Rightarrow> string \<Rightarrow> nat \<Rightarrow> number chapter_definition list \<Rightarrow>
   js_error + number chapter_definition list" where
  "equalChapters_loop segmentDuration numChapters baseTitle i chapters =
     (if js_less (Finite False (real i)) numChapters
      then (if 2 ^ 32 - 1 \<le> length chapters
            then Inl (RangeError ''Invalid array length'')
            else equalChapters_loop segmentDuration numChapters baseTitle (Suc i)
                   (chapters @ [\<lparr>title = baseTitle @ '' '' @ string_of_nat (i + 1),
                                  startTime = js_times (Finite False (real i)) segmentDuration\<rparr>]))
      else Inr chapters)"
  by pat_completeness auto
termination
  by (relation "measure (\<lambda>(s, n, b, i, chapters). 2 ^ 32 - 1 - length chapters)") auto

declare equalChapters_loop.simps [simp del]

definition generateEqualChapters ::
  "number \<Rightarrow> number \<Rightarrow> string \<Rightarrow> js_error + number chapter_definition list" where
  "generateEqualChapters dur numChapters baseTitle =
     (let segmentDuration = js_divide dur numChapters
      in equalChapters_loop segmentDuration numChapters baseTitle 0 [])"

text \<open>
  What it means for a string to be the decimal numeral of \<open>n\<close>: it is made of digits, has
  no leading zero unless it is \<open>0\<close> itself, and the digits, read from the left, give \<open>n\<close>.
\<close>

definition is_digit :: "char \<Rightarrow> bool" where
  "is_digit c \<longleftrightarrow> c \<in> set ''0123456789''"

definition decimal_value :: "string \<Rightarrow> nat" where
  "decimal_value ds = foldl (\<lambda>a c. 10 * a + (of_char c - 48)) 0 ds"

definition decimal_numeral :: "string \<Rightarrow> nat \<Rightarrow> bool" where
  "decimal_numeral ds n \<longleftrightarrow>
     ds \<noteq> [] \<and> list_all is_digit ds \<and> (hd ds = CHR ''0'' \<longrightarrow> ds = ''0'') \<and> decimal_value ds = n"

section \<open>Media elements and the document\<close>

datatype event_name = Seeked | ErrorEvent | LoadedMetadata | CanPlay

text \<open>
  The closures the source registers as listeners: the four handlers of a single-frame
  capture, the one-shot \<open>onCanPlay\<close> of the batch operation and the \<open>onSeeked\<close> of chapter
  navigation.
\<close>

datatype handler =
  H_onSeeked | H_onError | H_onLoadedMetadata | H_onCanPlay | H_batchCanPlay | H_navSeeked

text \<open>A listener is an event name, the handler and the \<open>once\<close> option.\<close>

type_synonym listener = "event_name \<times> handler \<times> bool"

text \<open>
  The state of a media element, as far as the source reads or writes it. Its times are
  real numbers; a duration that is not known (\<open>NaN\<close>) is \<open>None\<close>.
\<close>

record video_element =
  src :: string
  currentSrc :: string
  crossOrigin :: "string option"
  preload :: string
  muted :: bool
  playsInline :: bool
  duration :: "real option"
  currentTime :: real
  paused :: bool
  readyState :: nat
  listeners :: "listener list"

definition new_video :: video_element where
  "new_video = \<lparr>src = [], currentSrc = [], crossOrigin = None, preload = ''metadata'',
     muted = False, playsInline = False, duration = None, currentTime = 0, paused = True,
     readyState = 0, listeners = []\<rparr>"

text \<open>
  A node of the document is a video element, an audio element (a media element with the
  same state, which is not an \<open>HTMLVideoElement\<close>), a canvas with its size, or any other
  object.
\<close>

datatype node = VideoNode video_element | AudioNode video_element | CanvasNode nat nat | OtherNode

text \<open>
  The calls made on the nodes of the document, in order: the second component of a
  \<open>DrawImage\<close> is the element whose frame is read, a \<open>Load\<close> carries the \<open>src\<close> assigned just
  before \<open>load()\<close>, a \<open>SetCurrentTime\<close> carries the value assigned to \<open>currentTime\<close>.
\<close>

datatype dom_call =
  CreateElement string nat
  | Load nat string
  | SetCurrentTime nat real
  | DrawImage nat nat
  | Pause nat
  | Play nat

text \<open>
  The nodes live in a store; a reference is an index into it. A reference that is out of
  range stands for \<open>null\<close>. \<open>video_at\<close> is the test \<open>instanceof HTMLVideoElement\<close> and the
  state of the element; \<open>media_at\<close> gives the state of any media element, video or audio.
\<close>

record document =
  nodes :: "node list"
  calls :: "dom_call list"

definition video_at :: "document \<Rightarrow> nat \<Rightarrow> video_element option" where
  "video_at d i =
     (if i < length (nodes d)
      then (case nodes d ! i of VideoNode v \<Rightarrow> Some v | _ \<Rightarrow> None)
      else None)"

definition media_at :: "document \<Rightarrow> nat \<Rightarrow> video_element option" where
  "media_at d i =
     (if i < length (nodes d)
      then (case nodes d ! i of VideoNode v \<Rightarrow> Some v | AudioNode v \<Rightarrow> Some v | _ \<Rightarrow> None)
      else None)"

text \<open>An assignment to the state of the media element \<open>i\<close>; other nodes do not have that state.\<close>

definition upd_media :: "nat \<Rightarrow> (video_element \<Rightarrow> video_element) \<Rightarrow> document \<Rightarrow> document" where
  "upd_media i f d =
     (if i < length (nodes d)
      then (case nodes d ! i of
              VideoNode v \<Rightarrow> d\<lparr>nodes := (nodes d)[i := VideoNode (f v)]\<rparr>
            | AudioNode v \<Rightarrow> d\<lparr>nodes := (nodes d)[i := AudioNode (f v)]\<rparr>
            | _ \<Rightarrow> d)
      else d)"

definition log_call :: "dom_call \<Rightarrow> document \<Rightarrow> document" where
  "log_call c d = d\<lparr>calls := calls d @ [c]\<rparr>"

definition createElement :: "string \<Rightarrow> document \<Rightarrow> nat \<times> document" where
  "createElement tag d =
     (let i = length (nodes d);
          n = (if tag = ''video'' then VideoNode new_video
               else if tag = ''canvas'' then CanvasNode 300 150
               else OtherNode)
      in (i, log_call (CreateElement tag i) (d\<lparr>nodes := nodes d @ [n]\<rparr>)))"

definition set_canvas_size :: "nat \<Rightarrow> nat \<Rightarrow> nat \<Rightarrow> document \<Rightarrow> document" where
  "set_canvas_size i w h d =
     (if i < length (nodes d)
      then (case nodes d ! i of
              CanvasNode _ _ \<Rightarrow> d\<lparr>nodes := (nodes d)[i := CanvasNode w h]\<rparr>
            | _ \<Rightarrow> d)
      else d)"

text \<open>
  Assigning \<open>currentTime\<close> requests a seek. The call log keeps the value assigned; the
  element then reports the position the browser moves to, which it keeps inside the
  stream.
\<close>

definition set_currentTime :: "nat \<Rightarrow> real \<Rightarrow> document \<Rightarrow> document" where
  "set_currentTime i t d =
     log_call (SetCurrentTime i t)
       (upd_media i
          (\<lambda>v. v\<lparr>currentTime := (case duration v of
                                    None \<Rightarrow> max 0 t
                                  | Some du \<Rightarrow> max 0 (min t du))\<rparr>) d)"

text \<open>\<open>el.src = url; el.load()\<close>: the element drops what it had decoded.\<close>

definition load_src :: "nat \<Rightarrow> string \<Rightarrow> document \<Rightarrow> document" where
  "load_src i url d =
     log_call (Load i url)
       (upd_media i (\<lambda>v. v\<lparr>src := url, duration := None, currentTime := 0, readyState := 0\<rparr>) d)"

definition pause :: "nat \<Rightarrow> document \<Rightarrow> document" where
  "pause i d = log_call (Pause i) (upd_media i (\<lambda>v. v\<lparr>paused := True\<rparr>) d)"

text \<open>
  What a call of \<open>play()\<close> does is the browser's choice: it returns no promise (old
  browsers, the case \<open>goToChapter\<close> tests for), or a promise that resolves or rejects. A
  rejected request (autoplay policy) leaves the element paused as it was.
\<close>

datatype play_outcome = PlayNoPromise | PlayResolves | PlayRejects js_error

definition play :: "play_outcome \<Rightarrow> nat \<Rightarrow> document \<Rightarrow> document" where
  "play outcome i d =
     log_call (Play i)
       (case outcome of
          PlayResolves \<Rightarrow> upd_media i (\<lambda>v. v\<lparr>paused := False\<rparr>) d
        | PlayNoPromise \<Rightarrow> upd_media i (\<lambda>v. v\<lparr>paused := False\<rparr>) d
        | _ \<Rightarrow> d)"

text \<open>
  \<open>addEventListener\<close> ignores a listener that is already registered for the event;
  \<open>removeEventListener\<close> drops it.
\<close>

definition addEventListener :: "event_name \<Rightarrow> handler \<Rightarrow> bool \<Rightarrow> video_element \<Rightarrow> video_element" where
  "addEventListener e h once v =
     (if (e, h) \<in> set (map (\<lambda>(e', h', o'). (e', h')) (listeners v)) then v
      else v\<lparr>listeners := listeners v @ [(e, h, once)]\<rparr>)"

definition removeEventListener :: "event_name \<Rightarrow> handler \<Rightarrow> video_element \<Rightarrow> video_element" where
  "removeEventListener e h v =
     v\<lparr>listeners := filter (\<lambda>(e', h', o'). \<not> (e' = e \<and> h' = h)) (listeners v)\<rparr>"

section \<open>Single-frame capture\<close>

text \<open>
  A capture is a promise whose executor registers listeners and timers; everything after
  the executor happens in callbacks, one per event of the environment. The state below
  holds the closure variables of the source (\<open>thumbVideo\<close>, \<open>canvas\<close>, \<open>seekTime\<close>, \<open>resolved\<close>,
  \<open>timeoutId\<close>), the timers that are pending, the state of the promise (\<open>settled\<close>), and the
  number of times \<open>cleanup()\<close> has run (\<open>cleanups\<close>, which the source does not hold).
  \<open>raster\<close> is what \<open>drawImage\<close> followed by \<open>toDataURL\<close> yields when called next: a data
  URL or an exception.
\<close>

datatype timer_callback = Timeout_cb | MetadataDelay_cb | SeekedDelay_cb | CaptureRetry_cb

record capture =
  doc :: document
  thumbVideo :: nat
  canvas :: nat
  timeSeconds :: real
  seekTime :: real
  width :: nat
  height :: nat
  resolved :: bool
  timeoutId :: "nat option"
  timers :: "(nat \<times> timer_callback) list"
  lastTimer :: nat
  settled :: "(js_error + string) option"
  raster :: "js_error + string"
  cleanups :: nat

text \<open>
  What the environment does between callbacks: the browser dispatches an event on the
  internal element, a pending timer fires, the decoder of the internal element reports a
  new \<open>readyState\<close> and \<open>duration\<close>, or the outcome of the next frame read changes.
\<close>

datatype env_event =
  Dispatch event_name
  | TimerFires nat
  | Decoder nat "real option"
  | Raster "js_error + string"

definition thumb :: "capture \<Rightarrow> video_element option" where
  "thumb s = video_at (doc s) (thumbVideo s)"

definition thumb_update :: "(video_element \<Rightarrow> video_element) \<Rightarrow> capture \<Rightarrow> capture" where
  "thumb_update f s = s\<lparr>doc := upd_media (thumbVideo s) f (doc s)\<rparr>"

text \<open>Timer ids are positive and issued in increasing order.\<close>

definition setTimeout :: "timer_callback \<Rightarrow> capture \<Rightarrow> nat \<times> capture" where
  "setTimeout cb s =
     (let i = Suc (lastTimer s)
      in (i, s\<lparr>timers := timers s @ [(i, cb)], lastTimer := i\<rparr>))"

definition clearTimeout :: "nat \<Rightarrow> capture \<Rightarrow> capture" where
  "clearTimeout tid s = s\<lparr>timers := filter (\<lambda>(i, cb). i \<noteq> tid) (timers s)\<rparr>"

text \<open>Only the first \<open>resolve\<close> or \<open>reject\<close> of a promise counts.\<close>

definition resolve_promise :: "string \<Rightarrow> capture \<Rightarrow> capture" where
  "resolve_promise dataUrl s = (if settled s = None then s\<lparr>settled := Some (Inr dataUrl)\<rparr> else s)"

definition reject_promise :: "js_error \<Rightarrow> capture \<Rightarrow> capture" where
  "reject_promise err s = (if settled s = None then s\<lparr>settled := Some (Inl err)\<rparr> else s)"

text \<open>\<open>ctx.drawImage(video, 0, 0, width, height)\<close> on the canvas of the capture.\<close>

definition drawImage :: "capture \<Rightarrow> capture" where
  "drawImage s = s\<lparr>doc := log_call (DrawImage (canvas s) (thumbVideo s)) (doc s)\<rparr>"

text \<open>\<open>thumbVideo.currentTime = x\<close> (\<open>video.currentTime = x\<close> in \<open>captureVideoFrame\<close>).\<close>

definition request_seek :: "real \<Rightarrow> capture \<Rightarrow> capture" where
  "request_seek x s = s\<lparr>doc := set_currentTime (thumbVideo s) x (doc s)\<rparr>"

subsection \<open>captureVideoFrameFromElement\<close>

text \<open>
  The closures of \<open>captureVideoFrameFromElement\<close> carry the prefix \<open>el_\<close>, those of
  \<open>captureVideoFrame\<close> the prefix \<open>url_\<close>.
\<close>

definition el_cleanup :: "capture \<Rightarrow> capture" where
  "el_cleanup s =
     (let s1 = (case timeoutId s of
                  Some tid \<Rightarrow> (if tid \<noteq> 0 then clearTimeout tid s else s)
                | None \<Rightarrow> s);
          s2 = thumb_update (removeEventListener Seeked H_onSeeked) s1;
          s3 = thumb_update (removeEventListener ErrorEvent H_onError) s2;
          s4 = thumb_update (removeEventListener LoadedMetadata H_onLoadedMetadata) s3;
          s5 = thumb_update (removeEventListener CanPlay H_onCanPlay) s4;
          s6 = s5\<lparr>doc := load_src (thumbVideo s5) [] (doc s5)\<rparr>
      in s6\<lparr>cleanups := Suc (cleanups s6)\<rparr>)"

text \<open>
  The frame read of \<open>captureFrame\<close> and of its 200 ms retry: \<open>drawImage\<close>, \<open>toDataURL\<close>, then
  \<open>resolved = true; cleanup(); resolve(dataUrl)\<close>; an exception of the first two goes to the
  \<open>catch\<close>, which rejects unless \<open>resolved\<close> is set.
\<close>

definition el_readFrame :: "capture \<Rightarrow> capture" where
  "el_readFrame s =
     (let s1 = drawImage s
      in case raster s1 of
           Inr dataUrl \<Rightarrow> resolve_promise dataUrl (el_cleanup (s1\<lparr>resolved := True\<rparr>))
         | Inl err \<Rightarrow>
             (if \<not> resolved s1 then reject_promise err (el_cleanup (s1\<lparr>resolved := True\<rparr>))
              else s1))"

definition el_captureFrame :: "capture \<Rightarrow> capture" where
  "el_captureFrame s =
     (if resolved s then s
      else case thumb s of
             None \<Rightarrow> s
           | Some v \<Rightarrow>
               (if 2 \<le> readyState v then el_readFrame s
                else snd (setTimeout CaptureRetry_cb s)))"

definition el_captureRetry :: "capture \<Rightarrow> capture" where
  "el_captureRetry s =
     (case thumb s of
        None \<Rightarrow> s
      | Some v \<Rightarrow>
          (if \<not> resolved s \<and> 2 \<le> readyState v then el_readFrame s
           else if \<not> resolved s
           then reject_promise (Error ''Video not ready for frame capture'')
                  (el_cleanup (s\<lparr>resolved := True\<rparr>))
           else s))"

text \<open>
  The seek time both \<open>onLoadedMetadata\<close> and \<open>onCanPlay\<close> compute from \<open>seekTime\<close> and the
  duration of the internal element.
\<close>

definition el_finalSeekTime :: "real \<Rightarrow> real \<Rightarrow> real" where
  "el_finalSeekTime st d =
     (let actualSeekTime = min (max 0 st) (d - 1 / 10)
      in if actualSeekTime = 0 \<and> d > 1 / 10 then 1 / 10 else actualSeekTime)"

text \<open>
  With a duration that is still \<open>NaN\<close> the computed time is \<open>NaN\<close>, the assignment to
  \<open>currentTime\<close> throws inside the callback, and no seek is requested.
\<close>

definition el_requestSeek :: "capture \<Rightarrow> capture" where
  "el_requestSeek s =
     (case thumb s of
        None \<Rightarrow> s
      | Some v \<Rightarrow>
          (case duration v of
             None \<Rightarrow> s
           | Some d \<Rightarrow> request_seek (el_finalSeekTime (seekTime s) d) s))"

definition el_onLoadedMetadata :: "capture \<Rightarrow> capture" where
  "el_onLoadedMetadata s = snd (setTimeout MetadataDelay_cb s)"

definition el_metadataDelay :: "capture \<Rightarrow> capture" where
  "el_metadataDelay s =
     (case thumb s of
        None \<Rightarrow> s
      | Some v \<Rightarrow> (if \<not> resolved s \<and> 1 \<le> readyState v then el_requestSeek s else s))"

definition el_onCanPlay :: "capture \<Rightarrow> capture" where
  "el_onCanPlay s =
     (case thumb s of
        None \<Rightarrow> s
      | Some v \<Rightarrow>
          (if \<not> resolved s \<and> currentTime v = 0 \<and> seekTime s > 0 then el_requestSeek s else s))"

definition el_onSeeked :: "capture \<Rightarrow> capture" where
  "el_onSeeked s = (if resolved s then s else snd (setTimeout SeekedDelay_cb s))"

definition el_seekedDelay :: "capture \<Rightarrow> capture" where
  "el_seekedDelay s = (if \<not> resolved s then el_captureFrame s else s)"

definition el_onError :: "capture \<Rightarrow> capture" where
  "el_onError s =
     (if \<not> resolved s
      then reject_promise (Error ''Failed to load video for thumbnail'')
             (el_cleanup (s\<lparr>resolved := True\<rparr>))
      else s)"

definition el_onTimeout :: "capture \<Rightarrow> capture" where
  "el_onTimeout s =
     (if \<not> resolved s
      then reject_promise (Error ''Timeout while capturing video frame'')
             (el_cleanup (s\<lparr>resolved := True\<rparr>))
      else s)"

fun el_handler :: "handler \<Rightarrow> capture \<Rightarrow> capture" where
  "el_handler H_onSeeked s = el_onSeeked s"
| "el_handler H_onError s = el_onError s"
| "el_handler H_onLoadedMetadata s = el_onLoadedMetadata s"
| "el_handler H_onCanPlay s = el_onCanPlay s"
| "el_handler _ s = s"

fun el_timer :: "timer_callback \<Rightarrow> capture \<Rightarrow> capture" where
  "el_timer Timeout_cb s = el_onTimeout s"
| "el_timer MetadataDelay_cb s = el_metadataDelay s"
| "el_timer SeekedDelay_cb s = el_seekedDelay s"
| "el_timer CaptureRetry_cb s = el_captureRetry s"

text \<open>
  The browser dispatches an event to the listener registered for it on the internal
  element (a capture registers at most one per event); a \<open>once\<close> listener is removed before
  it runs.
\<close>

definition dispatch :: "(handler \<Rightarrow> capture \<Rightarrow> capture) \<Rightarrow> event_name \<Rightarrow> capture \<Rightarrow> capture" where
  "dispatch run e s =
     (case thumb s of
        None \<Rightarrow> s
      | Some v \<Rightarrow>
          (case find (\<lambda>(e', h, once). e' = e) (listeners v) of
             None \<Rightarrow> s
           | Some (e', h, once) \<Rightarrow>
               run h (if once then thumb_update (removeEventListener e h) s else s)))"

text \<open>A timer that fires leaves the pending timers, then its callback runs.\<close>

definition fire_timer :: "(timer_callback \<Rightarrow> capture \<Rightarrow> capture) \<Rightarrow> nat \<Rightarrow> capture \<Rightarrow> capture" where
  "fire_timer run tid s =
     (case map_of (timers s) tid of
        None \<Rightarrow> s
      | Some cb \<Rightarrow> run cb (clearTimeout tid s))"

definition env_step ::
  "(handler \<Rightarrow> capture \<Rightarrow> capture) \<Rightarrow> (timer_callback \<Rightarrow> capture \<Rightarrow> capture) \<Rightarrow>
   env_event \<Rightarrow> capture \<Rightarrow> capture" where
  "env_step runh runt ev s =
     (case ev of
        Dispatch e \<Rightarrow> dispatch runh e s
      | TimerFires tid \<Rightarrow> fire_timer runt tid s
      | Decoder rs du \<Rightarrow> thumb_update (\<lambda>v. v\<lparr>readyState := rs, duration := du\<rparr>) s
      | Raster r \<Rightarrow> s\<lparr>raster := r\<rparr>)"

definition el_step :: "env_event \<Rightarrow> capture \<Rightarrow> capture" where
  "el_step = env_step el_handler el_timer"

definition el_run :: "env_event list \<Rightarrow> capture \<Rightarrow> capture" where
  "el_run evs s = foldl (\<lambda>s ev. el_step ev s) s evs"

text \<open>\<open>videoUrl.startsWith(p)\<close>\<close>

definition startsWith :: "string \<Rightarrow> string \<Rightarrow> bool" where
  "startsWith s p = (take (length p) s = p)"

text \<open>
  The executor of the promise, up to \<open>thumbVideo.load()\<close>. It rejects at once when the
  argument is not a video element; otherwise it returns the state the callbacks start
  from.
\<close>

definition el_executor :: "document \<Rightarrow> nat \<Rightarrow> real \<Rightarrow> nat \<Rightarrow> nat \<Rightarrow> js_error + capture" where
  "el_executor d videoElement t w h =
     (case video_at d videoElement of
        None \<Rightarrow> Inl (Error ''Invalid video element provided'')
      | Some ve \<Rightarrow>
          (let videoUrl = (if src ve \<noteq> [] then src ve else currentSrc ve);
               (tv, d1) = createElement ''video'' d;
               d2 = (if videoUrl \<noteq> [] \<and>
                        (startsWith videoUrl ''http://'' \<or> startsWith videoUrl ''https://'')
                     then upd_media tv (\<lambda>v. v\<lparr>crossOrigin := Some ''anonymous''\<rparr>) d1
                     else d1);
               d3 = upd_media tv (\<lambda>v. v\<lparr>preload := ''auto'', muted := True, playsInline := True\<rparr>) d2;
               (cv, d4) = createElement ''canvas'' d3;
               d5 = set_canvas_size cv w h d4;
               dur = (case duration ve of None \<Rightarrow> 0 | Some x \<Rightarrow> x);
               st0 = min (max 0 t) (dur - 1 / 10);
               st = (if st0 = 0 \<and> dur > 1 / 10 then 1 / 10 else st0);
               s0 = \<lparr>doc = d5, thumbVideo = tv, canvas = cv, timeSeconds = t, seekTime = st,
                      width = w, height = h, resolved = False, timeoutId = None, timers = [],
                      lastTimer = 0, settled = None,
                      raster = Inr ''data:image/jpeg;base64'', cleanups = 0\<rparr>;
               (tid, s1) = setTimeout Timeout_cb s0;
               s2 = s1\<lparr>timeoutId := Some tid\<rparr>;
               s3 = thumb_update (addEventListener LoadedMetadata H_onLoadedMetadata False) s2;
               s4 = thumb_update (addEventListener CanPlay H_onCanPlay False) s3;
               s5 = thumb_update (addEventListener Seeked H_onSeeked True) s4;
               s6 = thumb_update (addEventListener ErrorEvent H_onError True) s5
           in Inr (s6\<lparr>doc := load_src tv videoUrl (doc s6)\<rparr>)))"

text \<open>
  The 10 s timer of the executor is a timer like the others and fires at the latest after
  the events that came before it: a capture that the events have not settled is ended by
  it.
\<close>

definition el_finish :: "capture \<Rightarrow> capture" where
  "el_finish s =
     (if settled s = None
      then (case timeoutId s of Some tid \<Rightarrow> el_step (TimerFires tid) s | None \<Rightarrow> s)
      else s)"

text \<open>
  The whole operation under the events \<open>evs\<close>: the document it leaves and how the promise
  ended (\<open>None\<close>: it never settles).
\<close>

definition captureVideoFrameFromElement ::
  "document \<Rightarrow> nat \<Rightarrow> real \<Rightarrow> nat \<Rightarrow> nat \<Rightarrow> env_event list \<Rightarrow> document \<times> (js_error + string) option" where
  "captureVideoFrameFromElement d videoElement t w h evs =
     (case el_executor d videoElement t w h of
        Inl err \<Rightarrow> (d, Some (Inl err))
      | Inr s0 \<Rightarrow> (let s = el_finish (el_run evs s0) in (doc s, settled s)))"

subsection \<open>captureVideoFrame\<close>

text \<open>
  \<open>cleanup\<close> of \<open>captureVideoFrame\<close> resets the element first and removes the listeners
  after; it does not touch the 15 s timer, whose id the source keeps in \<open>timeout\<close> and never
  reads.
\<close>

definition url_cleanup :: "capture \<Rightarrow> capture" where
  "url_cleanup s =
     (let s1 = s\<lparr>doc := load_src (thumbVideo s) [] (doc s)\<rparr>;
          s2 = thumb_update (removeEventListener LoadedMetadata H_onLoadedMetadata) s1;
          s3 = thumb_update (removeEventListener Seeked H_onSeeked) s2;
          s4 = thumb_update (removeEventListener ErrorEvent H_onError) s3;
          s5 = thumb_update (removeEventListener CanPlay H_onCanPlay) s4
      in s5\<lparr>cleanups := Suc (cleanups s5)\<rparr>)"

definition url_seekTime :: "real \<Rightarrow> real \<Rightarrow> real" where
  "url_seekTime t d = min (max 0 t) (d - 1 / 10)"

definition url_requestSeek :: "capture \<Rightarrow> capture" where
  "url_requestSeek s =
     (case thumb s of
        None \<Rightarrow> s
      | Some v \<Rightarrow>
          (case duration v of
             None \<Rightarrow> s
           | Some d \<Rightarrow> request_seek (url_seekTime (timeSeconds s) d) s))"

definition url_onLoadedMetadata :: "capture \<Rightarrow> capture" where
  "url_onLoadedMetadata s = url_requestSeek s"

definition url_onCanPlay :: "capture \<Rightarrow> capture" where
  "url_onCanPlay s =
     (case thumb s of
        None \<Rightarrow> s
      | Some v \<Rightarrow> (if 2 \<le> readyState v then url_requestSeek s else s))"

definition url_onSeeked :: "capture \<Rightarrow> capture" where
  "url_onSeeked s =
     (if resolved s then s
      else case thumb s of
             None \<Rightarrow> s
           | Some v \<Rightarrow>
               (if 2 \<le> readyState v
                then (let s1 = drawImage s
                      in case raster s1 of
                           Inr dataUrl \<Rightarrow>
                             resolve_promise dataUrl (url_cleanup (s1\<lparr>resolved := True\<rparr>))
                         | Inl err \<Rightarrow>
                             (if \<not> resolved s1
                              then reject_promise err (url_cleanup (s1\<lparr>resolved := True\<rparr>))
                              else s1))
                else snd (setTimeout CaptureRetry_cb s)))"

text \<open>
  The 200 ms retry has no \<open>try\<close>: an exception of the frame read ends the callback and
  nothing else happens.
\<close>

definition url_captureRetry :: "capture \<Rightarrow> capture" where
  "url_captureRetry s =
     (case thumb s of
        None \<Rightarrow> s
      | Some v \<Rightarrow>
          (if \<not> resolved s \<and> 2 \<le> readyState v
           then (let s1 = drawImage s
                 in case raster s1 of
                      Inr dataUrl \<Rightarrow>
                        resolve_promise dataUrl (url_cleanup (s1\<lparr>resolved := True\<rparr>))
                    | Inl err \<Rightarrow> s1)
           else s))"

definition url_onError :: "capture \<Rightarrow> capture" where
  "url_onError s =
     (if \<not> resolved s
      then reject_promise (Error ''Failed to load video'') (url_cleanup (s\<lparr>resolved := True\<rparr>))
      else s)"

definition url_onTimeout :: "capture \<Rightarrow> capture" where
  "url_onTimeout s =
     (if \<not> resolved s
      then reject_promise (Error ''Timeout while capturing video frame'')
             (url_cleanup (s\<lparr>resolved := True\<rparr>))
      else s)"

fun url_handler :: "handler \<Rightarrow> capture \<Rightarrow> capture" where
  "url_handler H_onSeeked s = url_onSeeked s"
| "url_handler H_onError s = url_onError s"
| "url_handler H_onLoadedMetadata s = url_onLoadedMetadata s"
| "url_handler H_onCanPlay s = url_onCanPlay s"
| "url_handler _ s = s"

text \<open>\<open>captureVideoFrame\<close> sets no timer but the 15 s one and the 200 ms retry.\<close>

fun url_timer :: "timer_callback \<Rightarrow> capture \<Rightarrow> capture" where
  "url_timer Timeout_cb s = url_onTimeout s"
| "url_timer CaptureRetry_cb s = url_captureRetry s"
| "url_timer _ s = s"

definition url_step :: "env_event \<Rightarrow> capture \<Rightarrow> capture" where
  "url_step = env_step url_handler url_timer"

definition url_run :: "env_event list \<Rightarrow> capture \<Rightarrow> capture" where
  "url_run evs s = foldl (\<lambda>s ev. url_step ev s) s evs"

definition url_executor :: "document \<Rightarrow> string \<Rightarrow> real \<Rightarrow> nat \<Rightarrow> nat \<Rightarrow> capture" where
  "url_executor d videoUrl t w h =
     (let (tv, d1) = createElement ''video'' d;
          d2 = upd_media tv (\<lambda>v. v\<lparr>crossOrigin := Some ''anonymous'', preload := ''auto'',
                                     muted := True, playsInline := True\<rparr>) d1;
          (cv, d3) = createElement ''canvas'' d2;
          d4 = set_canvas_size cv w h d3;
          s0 = \<lparr>doc = d4, thumbVideo = tv, canvas = cv, timeSeconds = t, seekTime = t,
                 width = w, height = h, resolved = False, timeoutId = None, timers = [],
                 lastTimer = 0, settled = None,
                 raster = Inr ''data:image/jpeg;base64'', cleanups = 0\<rparr>;
          (tid, s1) = setTimeout Timeout_cb s0;
          s2 = thumb_update (addEventListener LoadedMetadata H_onLoadedMetadata False) s1;
          s3 = thumb_update (addEventListener CanPlay H_onCanPlay False) s2;
          s4 = thumb_update (addEventListener Seeked H_onSeeked False) s3;
          s5 = thumb_update (addEventListener ErrorEvent H_onError False) s4
      in s5\<lparr>doc := load_src tv videoUrl (doc s5)\<rparr>)"

text \<open>
  The 15 s timer is the first timer set, so its id is 1; it ends a capture that the events
  have not settled.
\<close>

definition url_finish :: "capture \<Rightarrow> capture" where
  "url_finish s = (if settled s = None then url_step (TimerFires 1) s else s)"

definition captureVideoFrame ::
  "document \<Rightarrow> string \<Rightarrow> real \<Rightarrow> nat \<Rightarrow> nat \<Rightarrow> env_event list \<Rightarrow> document \<times> (js_error + string) option" where
  "captureVideoFrame d videoUrl t w h evs =
     (let s = url_finish (url_run evs (url_executor d videoUrl t w h)) in (doc s, settled s))"

text \<open>
  The state of a capture once the events \<open>evs\<close> have happened, before the closing timer:
  for \<open>captureVideoFrameFromElement\<close> there is none when the executor rejected at once.
\<close>

definition el_state_after ::
  "document \<Rightarrow> nat \<Rightarrow> real \<Rightarrow> nat \<Rightarrow> nat \<Rightarrow> env_event list \<Rightarrow> capture option" where
  "el_state_after d videoElement t w h evs =
     (case el_executor d videoElement t w h of
        Inl err \<Rightarrow> None
      | Inr s0 \<Rightarrow> Some (el_run evs s0))"

definition url_state_after ::
  "document \<Rightarrow> string \<Rightarrow> real \<Rightarrow> nat \<Rightarrow> nat \<Rightarrow> env_event list \<Rightarrow> capture" where
  "url_state_after d videoUrl t w h evs = url_run evs (url_executor d videoUrl t w h)"

section \<open>Batch thumbnail generation\<close>

text \<open>
  An \<open>async\<close> function either never completes (an \<open>await\<close> that never resumes), or its
  promise rejects with an exception that escaped it, or it returns.
\<close>

datatype 'a completion = Pending | Threw js_error | Returned 'a

text \<open>
  What the environment decides during a batch: whether \<open>canplay\<close> ever fires on the
  supplied element while the operation waits for it, what the final \<open>play()\<close> does, and the
  events of the capture of chapter \<open>i\<close>.
\<close>

record batch_env =
  canplay_fires :: bool
  play_result :: play_outcome
  capture_events :: "nat \<Rightarrow> env_event list"

text \<open>The body of the \<open>try\<close>/\<open>catch\<close> of one iteration: the record pushed for a chapter.\<close>

definition chapter_with_thumbnail :: "chapter_def \<Rightarrow> js_error + string \<Rightarrow> chapter_record" where
  "chapter_with_thumbnail ch outcome =
     (case outcome of
        Inr dataUrl \<Rightarrow>
          \<lparr>title = title ch, startTime = startTime ch, thumbnailUrl = Some dataUrl\<rparr>
      | Inl err \<Rightarrow> \<lparr>title = title ch, startTime = startTime ch, thumbnailUrl = None\<rparr>)"

text \<open>
  The loop of \<open>generateChapterThumbnailsFromElement\<close>, with the array built so far; the
  300 ms pause before every capture but the first changes no state. \<open>None\<close>: an awaited
  capture never settles.
\<close>

function fromElement_loop ::
  "batch_env \<Rightarrow> nat \<Rightarrow> chapter_def list \<Rightarrow> nat \<Rightarrow> nat \<Rightarrow> nat \<Rightarrow> document \<Rightarrow> chapter_record list \<Rightarrow>
   (document \<times> chapter_record list) option" where
  "fromElement_loop env videoElement chs w h i d acc =
     (if i < length chs
      then (let ch = chs ! i
            in case captureVideoFrameFromElement d videoElement (startTime ch) w h
                      (capture_events env i) of
                 (d', None) \<Rightarrow> None
               | (d', Some outcome) \<Rightarrow>
                   fromElement_loop env videoElement chs w h (Suc i) d'
                     (acc @ [chapter_with_thumbnail ch outcome]))
      else Some (d, acc))"
  by pat_completeness auto
termination
  by (relation "measure (\<lambda>(env, el, chs, w, h, i, d, acc). length chs - i)") auto

declare fromElement_loop.simps [simp del]

text \<open>
  The start of \<open>generateChapterThumbnailsFromElement\<close>: a playing element is paused, and an
  element below \<open>readyState\<close> 2 is waited for with a \<open>canplay\<close> listener that removes itself.
  \<open>None\<close>: \<open>canplay\<close> never fires and the \<open>await\<close> never resumes.
\<close>

definition fromElement_prepare :: "batch_env \<Rightarrow> nat \<Rightarrow> video_element \<Rightarrow> document \<Rightarrow> document option" where
  "fromElement_prepare env videoElement ve d =
     (let wasPlaying = \<not> paused ve;
          d1 = (if wasPlaying then pause videoElement d else d)
      in if readyState ve < 2
         then (if canplay_fires env
               then Some (upd_media videoElement (removeEventListener CanPlay H_batchCanPlay)
                            (upd_media videoElement
                               (addEventListener CanPlay H_batchCanPlay False) d1))
               else None)
         else Some d1)"

text \<open>
  Its end: \<open>videoElement.currentTime = 0\<close> and, for an element that was playing,
  \<open>videoElement.play().catch(() => {})\<close>, which swallows a rejection and throws a \<open>TypeError\<close>
  when \<open>play()\<close> returned no promise.
\<close>

definition fromElement_restore :: "batch_env \<Rightarrow> bool \<Rightarrow> nat \<Rightarrow> document \<Rightarrow> js_error + document" where
  "fromElement_restore env wasPlaying videoElement d =
     (let d1 = set_currentTime videoElement 0 d
      in if wasPlaying
         then (let d2 = play (play_result env) videoElement d1
               in case play_result env of
                    PlayNoPromise \<Rightarrow> Inl (TypeError ''videoElement.play(...) is undefined'')
                  | _ \<Rightarrow> Inr d2)
         else Inr d1)"

text \<open>
  The operation itself only uses what every media element has (\<open>paused\<close>, \<open>pause\<close>,
  \<open>readyState\<close>, the listeners, \<open>currentTime\<close>, \<open>play\<close>); on an audio element it runs as on a
  video element, and every capture rejects because the element is not a video element.
  Reading \<open>paused\<close> of a value that is not a media element gives \<open>undefined\<close> (or throws on
  \<open>null\<close>), \<open>wasPlaying\<close> is then true and the call of \<open>pause\<close> throws a \<open>TypeError\<close> outside
  every \<open>try\<close>.
\<close>

definition generateChapterThumbnailsFromElement ::
  "batch_env \<Rightarrow> document \<Rightarrow> nat \<Rightarrow> chapter_def list \<Rightarrow> nat \<Rightarrow> nat \<Rightarrow>
   (document \<times> chapter_record list) completion" where
  "generateChapterThumbnailsFromElement env d videoElement chs w h =
     (case media_at d videoElement of
        None \<Rightarrow> Threw (TypeError ''videoElement.pause is not a function'')
      | Some ve \<Rightarrow>
          (let wasPlaying = \<not> paused ve
           in case fromElement_prepare env videoElement ve d of
                None \<Rightarrow> Pending
              | Some d1 \<Rightarrow>
                  (case fromElement_loop env videoElement chs w h 0 d1 [] of
                     None \<Rightarrow> Pending
                   | Some (d2, chaptersWithThumbnails) \<Rightarrow>
                       (case fromElement_restore env wasPlaying videoElement d2 of
                          Inl err \<Rightarrow> Threw err
                        | Inr d3 \<Rightarrow> Returned (d3, chaptersWithThumbnails)))))"

text \<open>The loop of \<open>generateChapterThumbnails\<close>; the 200 ms pause changes no state.\<close>

function url_loop ::
  "batch_env \<Rightarrow> string \<Rightarrow> chapter_def list \<Rightarrow> nat \<Rightarrow> nat \<Rightarrow> nat \<Rightarrow> document \<Rightarrow> chapter_record list \<Rightarrow>
   (document \<times> chapter_record list) option" where
  "url_loop env videoUrl chs w h i d acc =
     (if i < length chs
      then (let ch = chs ! i
            in case captureVideoFrame d videoUrl (startTime ch) w h (capture_events env i) of
                 (d', None) \<Rightarrow> None
               | (d', Some outcome) \<Rightarrow>
                   url_loop env videoUrl chs w h (Suc i) d'
                     (acc @ [chapter_with_thumbnail ch outcome]))
      else Some (d, acc))"
  by pat_completeness auto
termination
  by (relation "measure (\<lambda>(env, u, chs, w, h, i, d, acc). length chs - i)") auto

declare url_loop.simps [simp del]

definition generateChapterThumbnails ::
  "batch_env \<Rightarrow> document \<Rightarrow> string \<Rightarrow> chapter_def list \<Rightarrow> nat \<Rightarrow> nat \<Rightarrow>
   (document \<times> chapter_record list) completion" where
  "generateChapterThumbnails env d videoUrl chs w h =
     (case url_loop env videoUrl chs w h 0 d [] of
        None \<Rightarrow> Pending
      | Some (d', chaptersWithThumbnails) \<Rightarrow> Returned (d', chaptersWithThumbnails))"

section \<open>The player component\<close>

datatype console_msg = Log string | Warn string | Err string

datatype vimeo_call = VimeoSetCurrentTime real | VimeoPlay

text \<open>
  The refs of the component. \<open>videoPlayerRef\<close> is a reference into the document or \<open>null\<close>;
  \<open>playerRef\<close> is \<open>null\<close> or a component whose \<open>player\<close> is there or not; \<open>playerInstance\<close> is
  there or not. \<open>index_writes\<close> counts the assignments to \<open>currentChapterIndex.value\<close>; the
  source has no such counter. \<open>reactions\<close> holds the rejection handlers that will run once
  the running function is done: what each will write to the console.
\<close>

record app =
  useVimeo :: bool
  videoPlayerRef :: "nat option"
  playerRef :: "bool option"
  playerInstance :: bool
  chapters :: "chapter_record list"
  currentChapterIndex :: int
  index_writes :: nat
  page :: document
  console :: "console_msg list"
  reactions :: "console_msg list"
  vimeo_calls :: "vimeo_call list"

text \<open>\<open>Array.prototype.findIndex\<close>: the first index whose element and index satisfy the
  predicate, or -1.\<close>

fun findIndex_from :: "('a \<Rightarrow> nat \<Rightarrow> bool) \<Rightarrow> 'a list \<Rightarrow> nat \<Rightarrow> int" where
  "findIndex_from p [] k = -1"
| "findIndex_from p (x # xs) k = (if p x k then int k else findIndex_from p xs (Suc k))"

definition findIndex :: "('a \<Rightarrow> nat \<Rightarrow> bool) \<Rightarrow> 'a list \<Rightarrow> int" where
  "findIndex p xs = findIndex_from p xs 0"

text \<open>\<open>xs[i]\<close>, which is \<open>undefined\<close> out of range.\<close>

definition at_index :: "'a list \<Rightarrow> nat \<Rightarrow> 'a option" where
  "at_index xs i = (if i < length xs then Some (xs ! i) else None)"

text \<open>The predicate of \<open>onVideoTimeUpdate\<close>.\<close>

definition in_chapter :: "chapter_record list \<Rightarrow> real \<Rightarrow> chapter_record \<Rightarrow> nat \<Rightarrow> bool" where
  "in_chapter chs t ch idx =
     (let nextChapter = at_index chs (idx + 1)
      in t \<ge> startTime ch \<and>
         (case nextChapter of None \<Rightarrow> True | Some nc \<Rightarrow> t < startTime nc))"

definition set_currentChapterIndex :: "int \<Rightarrow> app \<Rightarrow> app" where
  "set_currentChapterIndex i a =
     a\<lparr>currentChapterIndex := i, index_writes := Suc (index_writes a)\<rparr>"

definition onVideoTimeUpdate :: "app \<Rightarrow> app" where
  "onVideoTimeUpdate a =
     (case videoPlayerRef a of
        None \<Rightarrow> a
      | Some r \<Rightarrow>
          (case video_at (page a) r of
             None \<Rightarrow> a
           | Some v \<Rightarrow>
               (let index = findIndex (in_chapter (chapters a) (currentTime v)) (chapters a)
                in if index \<noteq> -1 \<and> currentChapterIndex a \<noteq> index
                   then set_currentChapterIndex index a
                   else a)))"

text \<open>The playback position the \<open>timeupdate\<close> event reports: the browser moved it.\<close>

definition playback_at :: "real \<Rightarrow> app \<Rightarrow> app" where
  "playback_at t a =
     (case videoPlayerRef a of
        None \<Rightarrow> a
      | Some r \<Rightarrow> a\<lparr>page := upd_media r (\<lambda>v. v\<lparr>currentTime := t\<rparr>) (page a)\<rparr>)"

subsection \<open>goToChapter\<close>

text \<open>
  A block of statements leaves a state and, when it threw, the exception. \<open>try_catch\<close> runs
  the handler on the state the block left when it threw.
\<close>

type_synonym 'a block = "'a \<Rightarrow> js_error option \<times> 'a"

definition try_catch :: "'a block \<Rightarrow> (js_error \<Rightarrow> 'a block) \<Rightarrow> 'a block" where
  "try_catch body handler a =
     (case body a of
        (None, a') \<Rightarrow> (None, a')
      | (Some err, a') \<Rightarrow> handler err a')"

definition console_write :: "console_msg \<Rightarrow> app \<Rightarrow> app" where
  "console_write m a = a\<lparr>console := console a @ [m]\<rparr>"

text \<open>
  What the environment decides during a navigation: whether the assignment to
  \<open>currentTime\<close> throws (a \<open>startTime\<close> that is not finite), whether \<open>seeked\<close> fires before the 500 ms fallback, what the first
  and the second \<open>play()\<close> do, and whether the promises of the Vimeo player reject.
\<close>

record nav_env =
  seek_throws :: "js_error option"
  seeked_fires :: bool
  first_play :: play_outcome
  retry_play :: play_outcome
  vimeo_seek_rejects :: "js_error option"
  vimeo_play_rejects :: "js_error option"

text \<open>The index update both branches end with.\<close>

definition select_chapter :: "chapter_record \<Rightarrow> app \<Rightarrow> app" where
  "select_chapter ch a =
     (let index = findIndex (\<lambda>c k. startTime c = startTime ch) (chapters a)
      in if index \<noteq> -1 then set_currentChapterIndex index a else a)"

text \<open>
  The inner \<open>try\<close> of the HTML5 branch: \<open>video.play()\<close>, awaited when it returns a promise.
\<close>

definition html5_play :: "nav_env \<Rightarrow> nat \<Rightarrow> app block" where
  "html5_play env video a =
     (let a1 = a\<lparr>page := play (first_play env) video (page a)\<rparr>
      in case first_play env of
           PlayRejects err \<Rightarrow> (Some err, a1)
         | _ \<Rightarrow> (None, a1))"

text \<open>
  The inner \<open>catch\<close>: a warning, then one more \<open>video.play()\<close> whose promise gets a
  rejection handler and is not awaited.
\<close>

definition html5_retry :: "nav_env \<Rightarrow> nat \<Rightarrow> js_error \<Rightarrow> app block" where
  "html5_retry env video playError a =
     (let a1 = console_write (Warn ''Autoplay was blocked:'') a;
          a2 = a1\<lparr>page := play (retry_play env) video (page a1)\<rparr>
      in case retry_play env of
           PlayNoPromise \<Rightarrow> (Some (TypeError ''video.play(...) is undefined''), a2)
         | PlayResolves \<Rightarrow> (None, a2)
         | PlayRejects err \<Rightarrow> (None, a2\<lparr>reactions := reactions a2 @ [Warn ''Video play failed'']\<rparr>))"

text \<open>
  The outer \<open>try\<close> of the HTML5 branch. Waiting for \<open>seeked\<close> registers a \<open>once\<close> listener;
  the listener itself or the 500 ms fallback removes it.
\<close>

definition html5_body :: "nav_env \<Rightarrow> nat \<Rightarrow> chapter_record \<Rightarrow> app block" where
  "html5_body env video ch a =
     (let a1 = console_write (Log ''Seeking to chapter:'') a
      in case seek_throws env of
           Some err \<Rightarrow> (Some err, a1)
         | None \<Rightarrow>
             (let a2 = a1\<lparr>page := set_currentTime video (startTime ch) (page a1)\<rparr>;
                  a3 = a2\<lparr>page := upd_media video (removeEventListener Seeked H_navSeeked)
                                    (upd_media video (addEventListener Seeked H_navSeeked True)
                                       (page a2))\<rparr>
              in case try_catch (html5_play env video) (html5_retry env video) a3 of
                   (Some err, a4) \<Rightarrow> (Some err, a4)
                 | (None, a4) \<Rightarrow> (None, select_chapter ch a4)))"

text \<open>The \<open>try\<close> of the Vimeo branch.\<close>

definition vimeo_body :: "nav_env \<Rightarrow> chapter_record \<Rightarrow> app block" where
  "vimeo_body env ch a =
     (let a1 = console_write (Log ''Seeking to chapter:'') a;
          a2 = a1\<lparr>vimeo_calls := vimeo_calls a1 @ [VimeoSetCurrentTime (startTime ch)]\<rparr>
      in case vimeo_seek_rejects env of
           Some err \<Rightarrow> (Some err, a2)
         | None \<Rightarrow>
             (let a3 = a2\<lparr>vimeo_calls := vimeo_calls a2 @ [VimeoPlay]\<rparr>
              in case vimeo_play_rejects env of
                   Some err \<Rightarrow> (Some err, a3)
                 | None \<Rightarrow> (None, select_chapter ch a3)))"

definition log_seek_error :: "js_error \<Rightarrow> app block" where
  "log_seek_error err a = (None, console_write (Err ''Error seeking to chapter:'') a)"

text \<open>The rejection handlers that are due run and write to the console.\<close>

definition run_reactions :: "app \<Rightarrow> app" where
  "run_reactions a = a\<lparr>console := console a @ reactions a, reactions := []\<rparr>"

text \<open>
  \<open>goToChapter\<close>: the exception that escapes it, if any, and the state once the operation
  and the rejection handlers it left are done.
\<close>

definition goToChapter :: "nav_env \<Rightarrow> chapter_record \<Rightarrow> app block" where
  "goToChapter env ch a =
     (case (if useVimeo a
            then (let noPlayer = (case playerRef a of None \<Rightarrow> True | Some has_player \<Rightarrow> \<not> has_player);
                      a1 = (if noPlayer
                            then console_write (Err ''Player instance not available via ref'') a
                            else a)
                  in if noPlayer \<and> \<not> playerInstance a
                     then (None, console_write (Err ''Player instance not available at all'') a1)
                     else try_catch (vimeo_body env ch) log_seek_error a1)
            else (case videoPlayerRef a of
                    None \<Rightarrow> (None, console_write (Err ''Video player not available'') a)
                  | Some video \<Rightarrow> try_catch (html5_body env video ch) log_seek_error a)) of
        (e, a') \<Rightarrow> (e, run_reactions a'))"

section \<open>Invariants and frame conditions of a capture\<close>

text \<open>
  The definitions of this section are not in the source: they state what holds of the
  states a capture goes through.

  What \<open>cleanup\<close> leaves of the internal element, in the order \<open>cleanup\<close> of
  \<open>captureVideoFrameFromElement\<close> and of \<open>captureVideoFrame\<close> work.
\<close>

definition el_released :: "video_element \<Rightarrow> video_element" where
  "el_released v =
     (removeEventListener CanPlay H_onCanPlay
        (removeEventListener LoadedMetadata H_onLoadedMetadata
           (removeEventListener ErrorEvent H_onError
              (removeEventListener Seeked H_onSeeked v))))
       \<lparr>src := [], duration := None, currentTime := 0, readyState := 0\<rparr>"

definition url_released :: "video_element \<Rightarrow> video_element" where
  "url_released v =
     removeEventListener CanPlay H_onCanPlay
       (removeEventListener ErrorEvent H_onError
          (removeEventListener Seeked H_onSeeked
             (removeEventListener LoadedMetadata H_onLoadedMetadata
                (v\<lparr>src := [], duration := None, currentTime := 0, readyState := 0\<rparr>))))"

text \<open>The handler a capture registers for each event.\<close>

fun handler_of :: "event_name \<Rightarrow> handler" where
  "handler_of Seeked = H_onSeeked"
| "handler_of ErrorEvent = H_onError"
| "handler_of LoadedMetadata = H_onLoadedMetadata"
| "handler_of CanPlay = H_onCanPlay"

definition own_listeners :: "video_element \<Rightarrow> bool" where
  "own_listeners v = list_all (\<lambda>(e, h, once). h = handler_of e) (listeners v)"

text \<open>
  The pending timers have distinct ids that were issued, and the timer with id 1, the
  first one set, is the overall timeout and the only one.
\<close>

definition timers_ok :: "capture \<Rightarrow> bool" where
  "timers_ok s =
     (1 \<le> lastTimer s \<and> distinct (map fst (timers s)) \<and>
      list_all (\<lambda>(i, cb). 1 \<le> i \<and> i \<le> lastTimer s \<and> (cb = Timeout_cb) = (i = 1)) (timers s))"

text \<open>
  The invariant of a capture. \<open>clears\<close> tells whether \<open>cleanup\<close> clears the overall timeout
  (\<open>captureVideoFrameFromElement\<close>) or not (\<open>captureVideoFrame\<close>).
\<close>

definition capture_inv :: "bool \<Rightarrow> capture \<Rightarrow> bool" where
  "capture_inv clears s =
     ((case thumb s of
         None \<Rightarrow> False
       | Some v \<Rightarrow> own_listeners v \<and> (resolved s \<longrightarrow> listeners v = []))
      \<and> resolved s = (settled s \<noteq> None)
      \<and> cleanups s = (if resolved s then 1 else 0)
      \<and> timers_ok s
      \<and> (clears \<longrightarrow> timeoutId s = Some 1 \<and> (resolved s \<longrightarrow> map_of (timers s) 1 = None)))"

definition timeout_pending :: "capture \<Rightarrow> bool" where
  "timeout_pending s = (map_of (timers s) 1 = Some Timeout_cb)"

definition capture_live :: "bool \<Rightarrow> capture \<Rightarrow> bool" where
  "capture_live clears s = (capture_inv clears s \<and> (\<not> resolved s \<longrightarrow> timeout_pending s))"

text \<open>The internal element and \<open>seekTime\<close> as the executors leave them.\<close>

definition el_fresh :: "string \<Rightarrow> video_element" where
  "el_fresh videoUrl =
     new_video\<lparr>src := videoUrl,
       crossOrigin := (if videoUrl \<noteq> [] \<and>
                          (startsWith videoUrl ''http://'' \<or> startsWith videoUrl ''https://'')
                       then Some ''anonymous'' else None),
       preload := ''auto'', muted := True, playsInline := True,
       listeners := [(LoadedMetadata, H_onLoadedMetadata, False), (CanPlay, H_onCanPlay, False),
                     (Seeked, H_onSeeked, True), (ErrorEvent, H_onError, True)]\<rparr>"

definition el_seekTime0 :: "real option \<Rightarrow> real \<Rightarrow> real" where
  "el_seekTime0 du t =
     (let dur = (case du of None \<Rightarrow> 0 | Some x \<Rightarrow> x);
          st0 = min (max 0 t) (dur - 1 / 10)
      in if st0 = 0 \<and> dur > 1 / 10 then 1 / 10 else st0)"

definition url_fresh :: "string \<Rightarrow> video_element" where
  "url_fresh videoUrl =
     new_video\<lparr>src := videoUrl, crossOrigin := Some ''anonymous'',
       preload := ''auto'', muted := True, playsInline := True,
       listeners := [(LoadedMetadata, H_onLoadedMetadata, False), (CanPlay, H_onCanPlay, False),
                     (Seeked, H_onSeeked, False), (ErrorEvent, H_onError, False)]\<rparr>"

text \<open>
  The calls one callback of a capture may add: a frame read from the internal element into
  the canvas, the reset of the internal element, or a seek of the internal element to the
  time \<open>f\<close> computes from \<open>seekTime\<close>, \<open>timeSeconds\<close> and its duration.
\<close>

definition new_call :: "(real \<Rightarrow> real \<Rightarrow> real \<Rightarrow> real) \<Rightarrow> capture \<Rightarrow> dom_call \<Rightarrow> bool" where
  "new_call f s c =
     (case c of
        DrawImage cv tv \<Rightarrow> cv = canvas s \<and> tv = thumbVideo s
      | Load i url \<Rightarrow> i = thumbVideo s \<and> url = []
      | SetCurrentTime i x \<Rightarrow>
          i = thumbVideo s \<and>
          (case thumb s of
             None \<Rightarrow> False
           | Some v \<Rightarrow>
               (case duration v of
                  None \<Rightarrow> False
                | Some d \<Rightarrow> x = f (seekTime s) (timeSeconds s) d))
      | _ \<Rightarrow> False)"

text \<open>
  What one step does to the document and to the closure variables that never change. The
  duration of the internal element stays, is reset, or is one the decoder reports (\<open>D\<close>).
\<close>

definition step_frame ::
  "(real \<Rightarrow> real \<Rightarrow> real \<Rightarrow> real) \<Rightarrow> (real option \<Rightarrow> bool) \<Rightarrow> capture \<Rightarrow> capture \<Rightarrow> bool" where
  "step_frame f D s s' =
     ((case thumb s' of
         None \<Rightarrow> True
       | Some v' \<Rightarrow>
           duration v' = None \<or> D (duration v') \<or>
           (case thumb s of None \<Rightarrow> False | Some v \<Rightarrow> duration v' = duration v)) \<and>
      thumbVideo s' = thumbVideo s \<and> canvas s' = canvas s \<and> seekTime s' = seekTime s \<and>
      timeSeconds s' = timeSeconds s \<and>
      length (nodes (doc s')) = length (nodes (doc s)) \<and>
      (\<forall>j. j \<noteq> thumbVideo s \<longrightarrow> nodes (doc s') ! j = nodes (doc s) ! j) \<and>
      (\<exists>new. calls (doc s') = calls (doc s) @ new \<and> list_all (new_call f s) new))"

abbreviation el_f :: "real \<Rightarrow> real \<Rightarrow> real \<Rightarrow> real" where
  "el_f \<equiv> (\<lambda>st ts d. el_finalSeekTime st d)"

abbreviation url_f :: "real \<Rightarrow> real \<Rightarrow> real \<Rightarrow> real" where
  "url_f \<equiv> (\<lambda>st ts d. url_seekTime ts d)"

text \<open>An event of the environment whose decoder report, if it is one, satisfies \<open>D\<close>.\<close>

definition reports :: "(real option \<Rightarrow> bool) \<Rightarrow> env_event \<Rightarrow> bool" where
  "reports D ev = (case ev of Decoder rs du \<Rightarrow> D du | _ \<Rightarrow> True)"

text \<open>
  A call on the internal element \<open>tv\<close> and the canvas \<open>cv\<close> of a capture: a frame read, the
  reset, or a seek to a time that satisfies \<open>P\<close>.
\<close>

fun internal_call :: "(real \<Rightarrow> bool) \<Rightarrow> nat \<Rightarrow> nat \<Rightarrow> dom_call \<Rightarrow> bool" where
  "internal_call P tv cv (DrawImage c v) = (c = cv \<and> v = tv)"
| "internal_call P tv cv (Load i url) = (i = tv \<and> url = [])"
| "internal_call P tv cv (SetCurrentTime i x) = (i = tv \<and> P x)"
| "internal_call P tv cv _ = False"

definition run_frame ::
  "(real \<Rightarrow> bool) \<Rightarrow> (real option \<Rightarrow> bool) \<Rightarrow> capture \<Rightarrow> capture \<Rightarrow> bool" where
  "run_frame P D s s' =
     ((case thumb s' of
         None \<Rightarrow> True
       | Some v' \<Rightarrow>
           duration v' = None \<or> D (duration v') \<or>
           (case thumb s of None \<Rightarrow> False | Some v \<Rightarrow> duration v' = duration v)) \<and>
      thumbVideo s' = thumbVideo s \<and> canvas s' = canvas s \<and> seekTime s' = seekTime s \<and>
      timeSeconds s' = timeSeconds s \<and>
      length (nodes (doc s')) = length (nodes (doc s)) \<and>
      (\<forall>j. j \<noteq> thumbVideo s \<longrightarrow> nodes (doc s') ! j = nodes (doc s) ! j) \<and>
      (\<exists>new. calls (doc s') = calls (doc s) @ new \<and>
             list_all (internal_call P (thumbVideo s) (canvas s)) new))"

text \<open>The nodes a call is made on or reads from.\<close>

fun touches :: "nat \<Rightarrow> dom_call \<Rightarrow> bool" where
  "touches i (CreateElement tag j) = (i = j)"
| "touches i (Load j url) = (i = j)"
| "touches i (SetCurrentTime j x) = (i = j)"
| "touches i (DrawImage c v) = (i = c \<or> i = v)"
| "touches i (Pause j) = (i = j)"
| "touches i (Play j) = (i = j)"

text \<open>
  The document before the capture of chapter \<open>i\<close> of a batch that started from \<open>d\<close>, and how
  that capture ends.
\<close>

fun fromElement_doc ::
  "batch_env \<Rightarrow> nat \<Rightarrow> chapter_def list \<Rightarrow> nat \<Rightarrow> nat \<Rightarrow> document \<Rightarrow> nat \<Rightarrow> document" where
  "fromElement_doc env videoElement chs w h d 0 = d"
| "fromElement_doc env videoElement chs w h d (Suc i) =
     fst (captureVideoFrameFromElement (fromElement_doc env videoElement chs w h d i) videoElement
            (startTime (chs ! i)) w h (capture_events env i))"

definition fromElement_outcome ::
  "batch_env \<Rightarrow> nat \<Rightarrow> chapter_def list \<Rightarrow> nat \<Rightarrow> nat \<Rightarrow> document \<Rightarrow> nat \<Rightarrow> (js_error + string) option" where
  "fromElement_outcome env videoElement chs w h d i =
     snd (captureVideoFrameFromElement (fromElement_doc env videoElement chs w h d i) videoElement
            (startTime (chs ! i)) w h (capture_events env i))"

fun url_doc ::
  "batch_env \<Rightarrow> string \<Rightarrow> chapter_def list \<Rightarrow> nat \<Rightarrow> nat \<Rightarrow> document \<Rightarrow> nat \<Rightarrow> document" where
  "url_doc env videoUrl chs w h d 0 = d"
| "url_doc env videoUrl chs w h d (Suc i) =
     fst (captureVideoFrame (url_doc env videoUrl chs w h d i) videoUrl
            (startTime (chs ! i)) w h (capture_events env i))"

definition url_outcome ::
  "batch_env \<Rightarrow> string \<Rightarrow> chapter_def list \<Rightarrow> nat \<Rightarrow> nat \<Rightarrow> document \<Rightarrow> nat \<Rightarrow> (js_error + string) option" where
  "url_outcome env videoUrl chs w h d i =
     snd (captureVideoFrame (url_doc env videoUrl chs w h d i) videoUrl
            (startTime (chs ! i)) w h (capture_events env i))"

section \<open>Example states\<close>

text \<open>
  A page with one video element that has loaded a 100 s file, and the component over it
  in its initial state (HTML5 mode, no chapter selected).
\<close>

definition demo_video :: video_element where
  "demo_video = new_video\<lparr>src := ''/test-video.mp4'', duration := Some 100, readyState := 4\<rparr>"

definition demo_page :: document where
  "demo_page = \<lparr>nodes = [VideoNode demo_video], calls = []\<rparr>"

definition demo_app :: "chapter_record list \<Rightarrow> app" where
  "demo_app chs = \<lparr>useVimeo = False, videoPlayerRef = Some 0, playerRef = None,
     playerInstance = False, chapters = chs, currentChapterIndex = -1, index_writes = 0,
     page = demo_page, console = [], reactions = [], vimeo_calls = []\<rparr>"

text \<open>
  A page whose only element is an audio element with the state of the example video, a
  page with no element at all, and a page with the single video element \<open>v\<close>.
\<close>

definition audio_page :: document where
  "audio_page = \<lparr>nodes = [AudioNode demo_video], calls = []\<rparr>"

definition empty_page :: document where
  "empty_page = \<lparr>nodes = [], calls = []\<rparr>"

definition page_of :: "video_element \<Rightarrow> document" where
  "page_of v = \<lparr>nodes = [VideoNode v], calls = []\<rparr>"

text \<open>Event sequences of a capture: the timers get the ids 2, 3, ... in the order they are set.\<close>

definition events_success :: "real \<Rightarrow> env_event list" where
  "events_success du =
     [Decoder 4 (Some du), Dispatch LoadedMetadata, TimerFires 2, Dispatch Seeked, TimerFires 3]"

definition events_load_error :: "env_event list" where
  "events_load_error = [Decoder 1 (Some 100), Dispatch LoadedMetadata, Dispatch ErrorEvent]"

definition events_url_success :: "env_event list" where
  "events_url_success = [Decoder 4 (Some 100), Dispatch LoadedMetadata, Dispatch Seeked]"

text \<open>
  Environments of a batch: one in which no event reaches any capture and \<open>canplay\<close> never
  fires, so that every capture ends by its timeout, and one in which the browser rejects
  the final \<open>play()\<close>.
\<close>

definition silent_env :: batch_env where
  "silent_env = \<lparr>canplay_fires = False, play_result = PlayResolves, capture_events = (\<lambda>i. [])\<rparr>"

definition rejecting_env :: batch_env where
  "rejecting_env = \<lparr>canplay_fires = True,
     play_result = PlayRejects (DOMException ''NotAllowedError''),
     capture_events = (\<lambda>i. events_success 100)\<rparr>"

text \<open>The value an operation returned, if it did.\<close>

fun returned :: "'a completion \<Rightarrow> 'a option" where
  "returned (Returned x) = Some x"
| "returned _ = None"

text \<open>The example video while it plays, and while it has only its metadata.\<close>

definition playing_video :: video_element where
  "playing_video = demo_video\<lparr>paused := False\<rparr>"

definition unready_video :: video_element where
  "unready_video = demo_video\<lparr>readyState := 1\<rparr>"

text \<open>An environment in which every capture succeeds and the final \<open>play()\<close> resolves.\<close>

definition resolving_env :: batch_env where
  "resolving_env = \<lparr>canplay_fires = True, play_result = PlayResolves,
     capture_events = (\<lambda>i. events_success 100)\<rparr>"

text \<open>Two chapters of which the first starts at 10 s.\<close>

definition late_chapters :: "chapter_record list" where
  "late_chapters = [\<lparr>title = ''A'', startTime = 10, thumbnailUrl = None\<rparr>,
                    \<lparr>title = ''B'', startTime = 20, thumbnailUrl = None\<rparr>]"

text \<open>
  Five chapter definitions that split a 100 s video into equal parts, and the records of
  these chapters before any thumbnail exists.
\<close>

definition five_chapters :: "chapter_def list" where
  "five_chapters =
     [\<lparr>title = ''Chapter 1'', startTime = 0\<rparr>, \<lparr>title = ''Chapter 2'', startTime = 20\<rparr>,
      \<lparr>title = ''Chapter 3'', startTime = 40\<rparr>, \<lparr>title = ''Chapter 4'', startTime = 60\<rparr>,
      \<lparr>title = ''Chapter 5'', startTime = 80\<rparr>]"

definition equal_chapters :: "chapter_record list" where
  "equal_chapters =
     map (\<lambda>c. \<lparr>title = title c, startTime = startTime c, thumbnailUrl = None\<rparr>)
       five_chapters"

text \<open>A \<open>play()\<close> that does not start playback: its promise rejected.\<close>

fun play_fails :: "play_outcome \<Rightarrow> bool" where
  "play_fails (PlayRejects err) = True"
| "play_fails _ = False"

text \<open>What \<open>goToChapter\<close> writes to the console after a first \<open>play()\<close> that failed.\<close>

fun retry_messages :: "play_outcome \<Rightarrow> console_msg list" where
  "retry_messages PlayResolves = [Warn ''Autoplay was blocked:'']"
| "retry_messages (PlayRejects err) = [Warn ''Autoplay was blocked:'', Warn ''Video play failed'']"
| "retry_messages _ = [Warn ''Autoplay was blocked:'', Err ''Error seeking to chapter:'']"

text \<open>A browser that blocks every \<open>play()\<close> by its autoplay policy.\<close>

definition blocking_env :: nav_env where
  "blocking_env = \<lparr>seek_throws = None, seeked_fires = True,
     first_play = PlayRejects (DOMException ''NotAllowedError''),
     retry_play = PlayRejects (DOMException ''NotAllowedError''),
     vimeo_seek_rejects = None, vimeo_play_rejects = None\<rparr>"

section \<open>Properties of rounding to a double\<close>

subsection \<open>Exponents and quanta\<close>

lemma ilog2_bounds: "1 \<le> n \<Longrightarrow> 2 ^ ilog2 n \<le> n \<and> n < 2 ^ Suc (ilog2 n)"
proof (induction n rule: ilog2.induct)
  case (1 n)
  show ?case
  proof (cases "n < 2")
    case True
    with "1.prems" have "n = 1" by simp
    then show ?thesis by (simp add: ilog2.simps)
  next
    case False
    then have "1 \<le> n div 2" by simp
    with "1.IH" False have ih: "2 ^ ilog2 (n div 2) \<le> n div 2" "n div 2 < 2 ^ Suc (ilog2 (n div 2))"
      by simp_all
    have e: "ilog2 n = Suc (ilog2 (n div 2))"
      using False by (subst ilog2.simps) simp
    have "2 * 2 ^ ilog2 (n div 2) \<le> n" using ih(1) by linarith
    moreover have "n < 2 * 2 ^ Suc (ilog2 (n div 2))" using ih(2) by linarith
    ultimately show ?thesis by (simp add: e)
  qed
qed

lemma exponent_bounds:
  assumes "0 < m"
  shows "2 powi exponent m \<le> m" and "m < 2 powi (exponent m + 1)"
proof -
  show "2 powi exponent m \<le> m"
  proof (cases "1 \<le> m")
    case True
    let ?n = "nat \<lfloor>m\<rfloor>"
    have n: "1 \<le> ?n" using True by linarith
    have "real (2 ^ ilog2 ?n) \<le> real ?n"
      using ilog2_bounds [OF n] by (simp only: of_nat_le_iff)
    also have "real ?n \<le> m" using True by linarith
    finally show ?thesis using True by (simp add: exponent_def power_int_of_nat)
  next
    case False
    let ?n = "nat (\<lceil>1 / m\<rceil> - 1)"
    have "1 < 1 / m" using False assms by simp
    then have c: "2 \<le> \<lceil>1 / m\<rceil>" by linarith
    then have n: "1 \<le> ?n" by linarith
    have "0 \<le> \<lceil>1 / m\<rceil> - 1" using c by linarith
    then have rn: "real ?n = of_int \<lceil>1 / m\<rceil> - 1"
      by (simp only: of_nat_nat of_int_diff of_int_1)
    have "1 / m \<le> of_int \<lceil>1 / m\<rceil>" by linarith
    also have "\<dots> = real (?n + 1)" using rn by simp
    also have "\<dots> \<le> real (2 ^ Suc (ilog2 ?n))"
      using ilog2_bounds [OF n] by (simp only: of_nat_le_iff) simp
    finally have "1 / m \<le> 2 ^ Suc (ilog2 ?n)" by simp
    then have "1 / 2 ^ Suc (ilog2 ?n) \<le> m"
      using assms by (simp add: field_simps)
    moreover have "(2::real) powi exponent m = 1 / 2 ^ Suc (ilog2 ?n)"
    proof -
      have "exponent m = - int (Suc (ilog2 ?n))" using False by (simp add: exponent_def)
      then show ?thesis by (simp only: power_int_minus_divide power_int_of_nat)
    qed
    ultimately show ?thesis by (simp only:)
  qed
  show "m < 2 powi (exponent m + 1)"
  proof (cases "1 \<le> m")
    case True
    let ?n = "nat \<lfloor>m\<rfloor>"
    have n: "1 \<le> ?n" using True by linarith
    have "m < real (?n + 1)" using True by linarith
    also have "\<dots> \<le> real (2 ^ Suc (ilog2 ?n))"
      using ilog2_bounds [OF n] by (simp only: of_nat_le_iff) simp
    finally have "m < 2 ^ Suc (ilog2 ?n)" by simp
    moreover have "exponent m + 1 = int (Suc (ilog2 ?n))" using True by (simp add: exponent_def)
    ultimately show ?thesis by (simp only: power_int_of_nat)
  next
    case False
    let ?n = "nat (\<lceil>1 / m\<rceil> - 1)"
    have "1 < 1 / m" using False assms by simp
    then have c: "2 \<le> \<lceil>1 / m\<rceil>" by linarith
    then have n: "1 \<le> ?n" by linarith
    have "real (2 ^ ilog2 ?n) \<le> real ?n"
      using ilog2_bounds [OF n] by (simp only: of_nat_le_iff)
    also have "real ?n = of_int \<lceil>1 / m\<rceil> - 1"
    proof -
      have "0 \<le> \<lceil>1 / m\<rceil> - 1" using c by linarith
      then show ?thesis by (simp only: of_nat_nat of_int_diff of_int_1)
    qed
    also have "\<dots> < 1 / m" by linarith
    finally have "2 ^ ilog2 ?n < 1 / m" by simp
    then have "m < 1 / 2 ^ ilog2 ?n" using assms by (simp add: field_simps)
    moreover have "exponent m + 1 = - int (ilog2 ?n)" using False by (simp add: exponent_def)
    ultimately show ?thesis by (simp only: power_int_minus_divide power_int_of_nat)
  qed
qed

lemma powi_less_exp:
  assumes "(2::real) powi a < 2 powi b"
  shows "a < b"
proof (rule ccontr)
  assume "\<not> a < b"
  then have "b \<le> a" by simp
  then have "(2::real) powi b \<le> 2 powi a" by (intro power_int_increasing) simp_all
  with assms show False by simp
qed

lemma exponent_unique:
  assumes "2 powi e \<le> x" and "x < 2 powi (e + 1)"
  shows "exponent x = e"
proof -
  have x: "0 < x" using assms(1) zero_less_power_int [of "2::real" e] by linarith
  have "2 powi exponent x < (2::real) powi (e + 1)"
    using exponent_bounds(1) [OF x] assms(2) by linarith
  then have "exponent x < e + 1" by (rule powi_less_exp)
  moreover have "2 powi e < (2::real) powi (exponent x + 1)"
    using exponent_bounds(2) [OF x] assms(1) by linarith
  then have "e < exponent x + 1" by (rule powi_less_exp)
  ultimately show ?thesis by simp
qed

lemma powi_split: "(2::real) powi (e + 1) = 2 ^ 53 * 2 powi (e - 52)"
proof -
  have "e + 1 = 53 + (e - 52)" by simp
  then have "(2::real) powi (e + 1) = 2 powi (53 + (e - 52))" by (simp only:)
  also have "\<dots> = 2 powi 53 * 2 powi (e - 52)" by (rule power_int_add) simp
  finally show ?thesis by simp
qed

lemma powi_split_low: "(2::real) powi e = 2 ^ 52 * 2 powi (e - 52)"
proof -
  have "e = 52 + (e - 52)" by simp
  then have "(2::real) powi e = 2 powi (52 + (e - 52))" by (simp only:)
  also have "\<dots> = 2 powi 52 * 2 powi (e - 52)" by (rule power_int_add) simp
  finally show ?thesis by simp
qed

lemma least_double_pos [simp]: "0 < least_double" "0 \<le> least_double" "least_double \<noteq> 0"
proof -
  show "0 < least_double"
    unfolding least_double_def by (rule zero_less_power_int) simp
  then show "0 \<le> least_double" "least_double \<noteq> 0" by simp_all
qed

lemma least_normal_pos [simp]: "0 < least_normal"
  unfolding least_normal_def by (rule zero_less_power_int) simp

lemma least_le_one: "least_double \<le> 1" "least_normal \<le> 1"
proof -
  have "(2::real) powi (- 1074) \<le> 2 powi 0" by (intro power_int_increasing) simp_all
  then show "least_double \<le> 1" by (simp only: least_double_def power_int_0_right)
  have "(2::real) powi (- 1022) \<le> 2 powi 0" by (intro power_int_increasing) simp_all
  then show "least_normal \<le> 1" by (simp only: least_normal_def power_int_0_right)
qed

lemma huge_large: "2 ^ 40 \<le> huge"
  unfolding huge_def by (rule power_increasing) simp_all

lemma ulp_pos [simp]: "0 < ulp m" "0 \<le> ulp m" "ulp m \<noteq> 0"
proof -
  show "0 < ulp m"
    unfolding ulp_def by (rule zero_less_power_int) simp
  then show "0 \<le> ulp m" "ulp m \<noteq> 0" by simp_all
qed

lemma exponent_normal:
  assumes "least_normal \<le> m"
  shows "- 1022 \<le> exponent m"
proof (rule ccontr)
  assume "\<not> - 1022 \<le> exponent m"
  then have "exponent m + 1 \<le> - 1022" by simp
  then have "(2::real) powi (exponent m + 1) \<le> 2 powi (- 1022)"
    by (intro power_int_increasing) simp_all
  then have "2 powi (exponent m + 1) \<le> least_normal"
    by (simp only: least_normal_def)
  moreover have "0 < m" using assms least_normal_pos by linarith
  ultimately show False using exponent_bounds(2) [of m] assms by linarith
qed

lemma ulp_normal:
  assumes "least_normal \<le> m"
  shows "ulp m \<le> m / 2 ^ 52"
proof -
  have m: "0 < m" using assms least_normal_pos by linarith
  have "ulp m = 2 powi (exponent m - 52)"
    using exponent_normal [OF assms] by (simp add: ulp_def max_def)
  also have "\<dots> = 2 powi exponent m / 2 ^ 52"
    by (simp add: power_int_diff)
  also have "\<dots> \<le> m / 2 ^ 52"
    using exponent_bounds(1) [OF m] by (simp add: divide_right_mono)
  finally show ?thesis .
qed

lemma ulp_subnormal:
  assumes "0 < m" and "m < least_normal"
  shows "ulp m = least_double"
proof -
  have "exponent m \<le> - 1022"
  proof (rule ccontr)
    assume "\<not> exponent m \<le> - 1022"
    then have "- 1022 \<le> exponent m" by simp
    then have "(2::real) powi (- 1022) \<le> 2 powi exponent m"
      by (intro power_int_increasing) simp_all
    then have "least_normal \<le> 2 powi exponent m"
      by (simp only: least_normal_def)
    then show False using exponent_bounds(1) [OF assms(1)] assms(2) by linarith
  qed
  then have "max (exponent m) (- 1022) - 52 = - 1074" by simp
  then show ?thesis by (simp only: ulp_def least_double_def)
qed

text \<open>Every quantum is a power-of-two multiple of the least one.\<close>

lemma ulp_grid: "\<exists>j::nat. ulp m = 2 ^ j * least_double"
proof -
  let ?e = "max (exponent m) (- 1022)"
  have "0 \<le> ?e + 1022" by simp
  then obtain j :: nat where j: "?e + 1022 = int j"
    using zero_le_imp_eq_int by blast
  have "?e - 52 = int j + (- 1074)" using j by linarith
  then have "ulp m = 2 powi (int j + (- 1074))"
    by (simp only: ulp_def)
  also have "\<dots> = 2 powi (int j) * 2 powi (- 1074)"
    by (rule power_int_add) simp
  also have "\<dots> = 2 ^ j * least_double"
    by (simp only: power_int_of_nat least_double_def)
  finally show ?thesis by blast
qed

subsection \<open>Rounding\<close>

lemma round_half_even_error: "\<bar>of_int (round_half_even y) - y\<bar> \<le> 1 / 2"
  unfolding round_half_even_def Let_def by (auto; linarith)

lemma round_half_even_int [simp]: "round_half_even (of_int k) = k"
  by (simp add: round_half_even_def)

lemma round_half_even_nat [simp]: "round_half_even (of_nat k) = int k"
  using round_half_even_int [of "int k"] by (simp del: round_half_even_int)

lemma round_half_even_mono: "x \<le> y \<Longrightarrow> round_half_even x \<le> round_half_even y"
proof -
  assume xy: "x \<le> y"
  have fl: "\<lfloor>x\<rfloor> \<le> \<lfloor>y\<rfloor>" using xy by (rule floor_mono)
  show ?thesis
  proof (cases "\<lfloor>x\<rfloor> = \<lfloor>y\<rfloor>")
    case True
    then show ?thesis using xy
      unfolding round_half_even_def Let_def by (auto; linarith)
  next
    case False
    with fl have "\<lfloor>x\<rfloor> + 1 \<le> \<lfloor>y\<rfloor>" by simp
    moreover have "round_half_even x \<le> \<lfloor>x\<rfloor> + 1"
      unfolding round_half_even_def Let_def by auto
    moreover have "\<lfloor>y\<rfloor> \<le> round_half_even y"
      unfolding round_half_even_def Let_def by auto
    ultimately show ?thesis by linarith
  qed
qed

lemma round_half_even_zero: "0 \<le> y \<Longrightarrow> y \<le> 1 / 2 \<Longrightarrow> round_half_even y = 0"
proof -
  assume a: "0 \<le> y" "y \<le> 1 / 2"
  then have "\<lfloor>y\<rfloor> = 0" by linarith
  then show ?thesis using a by (simp add: round_half_even_def)
qed

lemma round_half_even_pos: "1 / 2 < y \<Longrightarrow> 1 \<le> round_half_even y"
proof -
  assume a: "1 / 2 < y"
  have "round_half_even (1 / 2 + (y - 1/2)) \<ge> 1"
  proof (cases "1 \<le> y")
    case True
    then have "round_half_even 1 \<le> round_half_even y" by (rule round_half_even_mono)
    moreover have "round_half_even 1 = 1" using round_half_even_int [of 1] by simp
    ultimately show ?thesis by simp
  next
    case False
    with a have "\<lfloor>y\<rfloor> = 0" by linarith
    then show ?thesis using a by (simp add: round_half_even_def)
  qed
  then show ?thesis by simp
qed

lemma round_half_even_nonneg: "0 \<le> y \<Longrightarrow> 0 \<le> round_half_even y"
proof -
  assume "0 \<le> y"
  then have "round_half_even 0 \<le> round_half_even y" by (rule round_half_even_mono)
  moreover have "round_half_even 0 = 0" using round_half_even_int [of 0] by simp
  ultimately show ?thesis by simp
qed

lemma round_magnitude_error:
  "\<bar>round_magnitude m - m\<bar> \<le> ulp m / 2"
proof (cases "m = 0")
  case True
  then show ?thesis by (simp add: round_magnitude_def)
next
  case False
  have u: "0 < ulp m" by simp
  have "\<bar>of_int (round_half_even (m / ulp m)) - m / ulp m\<bar> * ulp m \<le> 1 / 2 * ulp m"
    using round_half_even_error [of "m / ulp m"] by (intro mult_right_mono) simp_all
  moreover have "\<bar>of_int (round_half_even (m / ulp m)) - m / ulp m\<bar> * ulp m
      = \<bar>of_int (round_half_even (m / ulp m)) * ulp m - m\<bar>"
  proof -
    have "\<bar>of_int (round_half_even (m / ulp m)) - m / ulp m\<bar> * ulp m
        = \<bar>(of_int (round_half_even (m / ulp m)) - m / ulp m) * ulp m\<bar>"
      by (simp add: abs_mult)
    also have "(of_int (round_half_even (m / ulp m)) - m / ulp m) * ulp m
        = of_int (round_half_even (m / ulp m)) * ulp m - m"
      using u by (simp add: field_simps)
    finally show ?thesis .
  qed
  ultimately show ?thesis using False by (simp add: round_magnitude_def)
qed

lemma round_magnitude_nonneg: "0 \<le> m \<Longrightarrow> 0 \<le> round_magnitude m"
  by (simp add: round_magnitude_def round_half_even_nonneg)

lemma round_magnitude_grid:
  assumes "0 \<le> m"
  shows "\<exists>k::nat. round_magnitude m = real k * least_double"
proof (cases "m = 0")
  case True
  then have "round_magnitude m = real 0 * least_double" by (simp add: round_magnitude_def)
  then show ?thesis by blast
next
  case False
  have "0 \<le> round_half_even (m / ulp m)"
    using assms by (intro round_half_even_nonneg) simp
  then obtain a :: nat where a: "round_half_even (m / ulp m) = int a"
    using zero_le_imp_eq_int by blast
  from ulp_grid [of m] obtain j :: nat where j: "ulp m = 2 ^ j * least_double" by blast
  have "round_magnitude m = real a * (2 ^ j * least_double)"
    using False a j by (simp add: round_magnitude_def)
  also have "\<dots> = real (a * 2 ^ j) * least_double" by simp
  finally show ?thesis by blast
qed

text \<open>A multiple of the least quantum below the normal range is a double.\<close>

lemma round_magnitude_subnormal:
  assumes "m = real k * least_double" and "m < least_normal"
  shows "round_magnitude m = m"
proof (cases "m = 0")
  case True
  then show ?thesis by (simp add: round_magnitude_def)
next
  case False
  have "0 \<le> m" unfolding assms(1) by simp
  with False have m: "0 < m" by simp
  have u: "ulp m = least_double" using m assms(2) by (rule ulp_subnormal)
  have "m / ulp m = real k" unfolding u using assms(1) by simp
  then show ?thesis using False u assms(1) by (simp add: round_magnitude_def)
qed

text \<open>The relative error of rounding: in the normal range, and for every multiple of the least quantum.\<close>

lemma round_magnitude_normal:
  assumes "least_normal \<le> r"
  shows "\<bar>round_magnitude r - r\<bar> \<le> r / 2 ^ 53"
proof -
  have "\<bar>round_magnitude r - r\<bar> \<le> ulp r / 2" by (rule round_magnitude_error)
  also have "\<dots> \<le> r / 2 ^ 52 / 2" using ulp_normal [OF assms] by simp
  also have "\<dots> = r / 2 ^ 53" by simp
  finally show ?thesis .
qed

lemma round_magnitude_relative:
  assumes "m = real k * least_double"
  shows "\<bar>round_magnitude m - m\<bar> \<le> m / 2 ^ 53"
proof (cases "m < least_normal")
  case True
  have "0 \<le> m" unfolding assms(1) by simp
  then show ?thesis using round_magnitude_subnormal [OF assms True] by simp
next
  case False
  then have n: "least_normal \<le> m" by simp
  have "\<bar>round_magnitude m - m\<bar> \<le> ulp m / 2" by (rule round_magnitude_error)
  also have "\<dots> \<le> m / 2 ^ 52 / 2" using ulp_normal [OF n] by simp
  also have "\<dots> = m / 2 ^ 53" by simp
  finally show ?thesis .
qed

text \<open>The error of rounding any magnitude.\<close>

lemma round_magnitude_absolute:
  assumes "0 \<le> m"
  shows "\<bar>round_magnitude m - m\<bar> \<le> m / 2 ^ 53 + least_double / 2"
proof (cases "m < least_normal")
  case True
  show ?thesis
  proof (cases "m = 0")
    case True
    then show ?thesis by (simp add: round_magnitude_def)
  next
    case False
    with assms have m: "0 < m" by simp
    have "\<bar>round_magnitude m - m\<bar> \<le> ulp m / 2" by (rule round_magnitude_error)
    also have "\<dots> = least_double / 2" using ulp_subnormal [OF m True] by simp
    finally show ?thesis using assms by (simp add: add_increasing)
  qed
next
  case False
  then have n: "least_normal \<le> m" by simp
  have "\<bar>round_magnitude m - m\<bar> \<le> ulp m / 2" by (rule round_magnitude_error)
  also have "\<dots> \<le> m / 2 ^ 52 / 2" using ulp_normal [OF n] by simp
  also have "\<dots> = m / 2 ^ 53" by simp
  finally show ?thesis using least_double_pos(2) by linarith
qed

text \<open>Rounding gives 0 exactly up to half the least double.\<close>

lemma round_magnitude_underflow:
  assumes "0 \<le> m" and "m \<le> least_double / 2"
  shows "round_magnitude m = 0"
proof (cases "m = 0")
  case True
  then show ?thesis by (simp add: round_magnitude_def)
next
  case False
  with assms have m: "0 < m" by simp
  have "least_double / 2 < least_normal"
  proof -
    have "(2::real) powi (- 1074) \<le> 2 powi (- 1022)"
      by (intro power_int_increasing) simp_all
    then have "least_double \<le> least_normal" by (simp only: least_double_def least_normal_def)
    then show ?thesis using least_double_pos(1) by linarith
  qed
  with assms(2) have "m < least_normal" by linarith
  then have u: "ulp m = least_double" using m by (intro ulp_subnormal)
  have "m / ulp m \<le> 1 / 2" "0 \<le> m / ulp m"
    unfolding u using assms by (simp_all add: field_simps)
  then have "round_half_even (m / ulp m) = 0" by (intro round_half_even_zero)
  then show ?thesis by (simp add: round_magnitude_def)
qed

lemma round_magnitude_pos:
  assumes "least_double / 2 < m"
  shows "0 < round_magnitude m"
proof -
  have m: "0 < m" using assms least_double_pos(1) by linarith
  have "1 / 2 < m / ulp m"
  proof (cases "m < least_normal")
    case True
    then have "ulp m = least_double" using m by (intro ulp_subnormal)
    then show ?thesis using assms by (simp add: field_simps)
  next
    case False
    then have "ulp m \<le> m / 2 ^ 52" by (intro ulp_normal) simp
    also have "\<dots> < 2 * m" using m by simp
    finally have "ulp m < 2 * m" .
    then show ?thesis by (simp add: field_simps)
  qed
  then have "1 \<le> round_half_even (m / ulp m)" by (rule round_half_even_pos)
  then have "0 < real_of_int (round_half_even (m / ulp m))" by simp
  then show ?thesis using m by (simp add: round_magnitude_def)
qed

text \<open>Rounding gives a double: a rounded magnitude rounds to itself.\<close>

lemma round_magnitude_idem:
  assumes "0 \<le> m"
  shows "round_magnitude (round_magnitude m) = round_magnitude m"
proof (cases "m = 0")
  case True
  then show ?thesis by (simp add: round_magnitude_def)
next
  case False
  with assms have m: "0 < m" by simp
  define e where "e = max (exponent m) (- 1022)"
  define q where "q = (2::real) powi (e - 52)"
  define N where "N = round_half_even (m / q)"
  define r where "r = round_magnitude m"
  have q: "0 < q" unfolding q_def by (rule zero_less_power_int) simp
  have uq: "ulp m = q" by (simp add: ulp_def q_def e_def)
  have r: "r = of_int N * q" using False by (simp add: r_def round_magnitude_def uq N_def)
  have e: "- 1022 \<le> e" by (simp add: e_def)
  have e1: "(2::real) powi (e + 1) = 2 ^ 53 * q" unfolding q_def by (rule powi_split)
  have e0: "(2::real) powi e = 2 ^ 52 * q" unfolding q_def by (rule powi_split_low)
  have "exponent m + 1 \<le> e + 1" by (simp add: e_def)
  then have "(2::real) powi (exponent m + 1) \<le> 2 powi (e + 1)"
    by (intro power_int_increasing) simp_all
  then have "m < 2 ^ 53 * q" using exponent_bounds(2) [OF m] e1 by linarith
  then have "m / q \<le> of_int (2 ^ 53)" using q by (simp add: field_simps)
  then have "N \<le> round_half_even (of_int (2 ^ 53))" unfolding N_def by (rule round_half_even_mono)
  then have Nle: "N \<le> 2 ^ 53" by (simp only: round_half_even_int)
  have N0: "0 \<le> N" unfolding N_def using m q by (intro round_half_even_nonneg) simp
  have rq: "r / q = of_int N" using q by (simp add: r)
  have fixed: "round_magnitude r = r" if "r \<noteq> 0" "ulp r = q"
    using that by (simp add: round_magnitude_def rq r [symmetric])
  have "round_magnitude r = r"
  proof (cases "r = 0")
    case True
    then show ?thesis by (simp add: round_magnitude_def)
  next
    case r0: False
    with N0 r q have r_pos: "0 < r" by (simp add: zero_less_mult_iff less_le)
    show ?thesis
    proof (cases "- 1022 \<le> exponent m")
      case True
      then have ee: "e = exponent m" by (simp add: e_def)
      have "2 ^ 52 * q \<le> m" using exponent_bounds(1) [OF m] e0 ee by simp
      then have "of_int (2 ^ 52) \<le> m / q" using q by (simp add: field_simps)
      then have "round_half_even (of_int (2 ^ 52)) \<le> N"
        unfolding N_def by (rule round_half_even_mono)
      then have Nge: "2 ^ 52 \<le> N" by (simp only: round_half_even_int)
      then have "2 ^ 52 * q \<le> of_int N * q" using q by (intro mult_right_mono) simp_all
      then have lo: "2 powi e \<le> r" using e0 r by simp
      show ?thesis
      proof (cases "N = 2 ^ 53")
        case True
        then have rr: "r = 2 powi (e + 1)" using e1 r by simp
        have "(2::real) powi (e + 1) < 2 powi (e + 1 + 1)"
          by (intro power_int_strict_increasing) simp_all
        then have "exponent r = e + 1" unfolding rr by (intro exponent_unique) simp_all
        then have "ulp r = 2 powi (e + 1 - 52)" using e by (simp add: ulp_def max_def)
        also have "\<dots> = 2 powi (1 + (e - 52))" by (simp add: algebra_simps)
        also have "\<dots> = 2 powi 1 * 2 powi (e - 52)" by (rule power_int_add) simp
        finally have u: "ulp r = 2 * q" by (simp add: q_def)
        have "r / (2 * q) = of_int (2 ^ 52)" using q by (simp add: r True)
        then have "r / ulp r = of_int (2 ^ 52)" by (simp only: u)
        then have "round_half_even (r / ulp r) = 2 ^ 52" by (simp only: round_half_even_int)
        then have "round_magnitude r = of_int (2 ^ 52) * ulp r"
          using r0 by (simp only: round_magnitude_def if_False)
        also have "\<dots> = of_int (2 ^ 52) * (2 * q)" by (simp only: u)
        also have "\<dots> = r" by (simp add: r True)
        finally show ?thesis .
      next
        case False
        with Nle have "N < 2 ^ 53" by simp
        then have "of_int N * q < 2 ^ 53 * q" using q by (intro mult_strict_right_mono) simp_all
        then have "r < 2 powi (e + 1)" using e1 r by simp
        with lo have "exponent r = e" by (rule exponent_unique)
        then have "ulp r = q" using e by (simp add: ulp_def q_def max_def)
        with r0 show ?thesis by (rule fixed)
      qed
    next
      case False
      then have ee: "e = - 1022" by (simp add: e_def)
      have qd: "q = least_double" by (simp add: q_def ee least_double_def)
      have ln: "least_normal = 2 ^ 52 * q" using e0 by (simp add: ee least_normal_def)
      from False have "exponent m + 1 \<le> - 1022" by simp
      then have "(2::real) powi (exponent m + 1) \<le> 2 powi (- 1022)"
        by (intro power_int_increasing) simp_all
      then have "m < least_normal"
        using exponent_bounds(2) [OF m] by (simp add: least_normal_def)
      then have "m / q \<le> of_int (2 ^ 52)" using q ln by (simp add: field_simps)
      then have "N \<le> round_half_even (of_int (2 ^ 52))"
        unfolding N_def by (rule round_half_even_mono)
      then have Nle': "N \<le> 2 ^ 52" by (simp only: round_half_even_int)
      show ?thesis
      proof (cases "N = 2 ^ 52")
        case True
        then have rr: "r = 2 powi (- 1022)" using r ln by (simp add: least_normal_def)
        have "(2::real) powi (- 1022) < 2 powi (- 1022 + 1)"
          by (intro power_int_strict_increasing) simp_all
        then have "exponent r = - 1022" unfolding rr by (intro exponent_unique) simp_all
        then have "ulp r = q" by (simp add: ulp_def q_def ee)
        with r0 show ?thesis by (rule fixed)
      next
        case False
        with Nle' have "N < 2 ^ 52" by simp
        then have "of_int N * q < 2 ^ 52 * q" using q by (intro mult_strict_right_mono) simp_all
        then have "r < least_normal" using ln r by simp
        with r_pos have "ulp r = least_double" by (rule ulp_subnormal)
        then have "ulp r = q" by (simp add: qd)
        with r0 show ?thesis by (rule fixed)
      qed
    qed
  qed
  then show ?thesis by (simp add: r_def)
qed

subsection \<open>Doubles\<close>

lemma is_doubleD:
  "is_double d \<Longrightarrow> 0 \<le> d" "is_double d \<Longrightarrow> d < huge" "is_double d \<Longrightarrow> round_magnitude d = d"
  by (simp_all add: is_double_def)

lemma is_double_round:
  "0 \<le> m \<Longrightarrow> round_magnitude m < huge \<Longrightarrow> is_double (round_magnitude m)"
  by (simp add: is_double_def round_magnitude_nonneg round_magnitude_idem)

lemma to_double_finite:
  "round_magnitude m < huge \<Longrightarrow> to_double s m = Finite s (round_magnitude m)"
  by (simp add: to_double_def Let_def)

text \<open>Natural numbers below \<open>2 ^ 53\<close> are doubles, and so is the least double.\<close>

lemma exponent_nat:
  assumes "1 \<le> k"
  shows "exponent (real k) = int (ilog2 k)"
  using assms by (simp add: exponent_def)

lemma round_magnitude_nat:
  assumes "k < 2 ^ 53"
  shows "round_magnitude (real k) = real k"
proof (cases "k = 0")
  case True
  then show ?thesis by (simp add: round_magnitude_def)
next
  case False
  then have k: "1 \<le> k" by simp
  let ?e = "ilog2 k"
  have "2 ^ ?e \<le> k" using ilog2_bounds [OF k] by simp
  with assms have p: "(2::nat) ^ ?e < 2 ^ 53" by linarith
  have e: "?e < 53"
  proof (rule power_less_imp_less_exp)
    show "(1::nat) < 2" by simp
    show "(2::nat) ^ ?e < 2 ^ 53" by (rule p)
  qed
  have "max (exponent (real k)) (- 1022) - 52 = - int (52 - ?e)"
    using e by (simp add: exponent_nat [OF k])
  then have u: "ulp (real k) = 1 / 2 ^ (52 - ?e)"
    by (simp only: ulp_def power_int_minus_divide power_int_of_nat)
  have "real k / ulp (real k) = real (k * 2 ^ (52 - ?e))"
    unfolding u by simp
  then have "round_half_even (real k / ulp (real k)) = int (k * 2 ^ (52 - ?e))"
    by (simp only: round_half_even_nat)
  then show ?thesis using False u by (simp add: round_magnitude_def)
qed

lemma is_double_nat: "k < 2 ^ 53 \<Longrightarrow> is_double (real k)"
proof -
  assume k: "k < 2 ^ 53"
  have "real k < 2 ^ 53" using k by (metis of_nat_less_iff of_nat_numeral of_nat_power)
  also have "(2::real) ^ 53 \<le> huge" unfolding huge_def by (rule power_increasing) simp_all
  finally show ?thesis using round_magnitude_nat [OF k] by (simp add: is_double_def)
qed

lemma is_double_least: "is_double least_double"
proof -
  have "least_double = real 1 * least_double" by simp
  moreover have "least_double < least_normal"
  proof -
    have "(2::real) powi (- 1074) < 2 powi (- 1022)"
      by (intro power_int_strict_increasing) simp_all
    then show ?thesis by (simp only: least_double_def least_normal_def)
  qed
  ultimately have "round_magnitude least_double = least_double"
    by (rule round_magnitude_subnormal)
  moreover have "least_double < huge"
    using least_le_one(1) huge_large by simp
  ultimately show ?thesis by (simp add: is_double_def)
qed

subsection \<open>The doubles and the rounding of IEEE 754\<close>

text \<open>The doubles are the magnitudes that IEEE 754 encodes.\<close>

lemma quotient_of_product: "y = a * c \<Longrightarrow> c \<noteq> 0 \<Longrightarrow> y / c = (a::real)"
  by simp

lemma is_double_representable:
  assumes "is_double y"
  shows "representable y"
proof (cases "y = 0")
  case True
  then have "y = real 0 * 2 powi 0 \<and> (0::nat) < 2 ^ 53 \<and> - 1074 \<le> (0::int) \<and> (0::int) \<le> 971"
    by simp
  then show ?thesis unfolding representable_def by blast
next
  case False
  from assms have y0: "0 \<le> y" and yh: "y < huge" and fx: "round_magnitude y = y"
    by (simp_all add: is_double_def)
  from False y0 have y: "0 < y" by simp
  define e where "e = max (exponent y) (- 1022)"
  define q where "q = (2::real) powi (e - 52)"
  define N where "N = round_half_even (y / q)"
  have q: "0 < q" unfolding q_def by (rule zero_less_power_int) simp
  have uq: "ulp y = q" by (simp add: ulp_def q_def e_def)
  have yN: "y = of_int N * q"
    using fx False by (simp add: round_magnitude_def uq N_def)
  have "0 \<le> N" unfolding N_def using y q by (intro round_half_even_nonneg) simp
  then obtain k :: nat where k: "N = int k" using zero_le_imp_eq_int by blast
  have yk: "y = real k * 2 powi (e - 52)" using yN k by (simp add: q_def)
  have "exponent y + 1 \<le> e + 1" by (simp add: e_def)
  then have "(2::real) powi (exponent y + 1) \<le> 2 powi (e + 1)"
    by (intro power_int_increasing) simp_all
  then have "y < 2 powi (e + 1)" using exponent_bounds(2) [OF y] by linarith
  then have "real k * q < 2 ^ 53 * q" using yk powi_split [of e] by (simp add: q_def)
  then have "real k < 2 ^ 53" using q by simp
  then have k53: "k < 2 ^ 53" by (metis of_nat_less_iff of_nat_numeral of_nat_power)
  have "(2::real) powi exponent y < 2 powi 1024"
    using exponent_bounds(1) [OF y] yh by (simp add: huge_def)
  then have "exponent y < 1024" by (rule powi_less_exp)
  then have "e - 52 \<le> 971" "- 1074 \<le> e - 52" by (simp_all add: e_def)
  with yk k53 show ?thesis unfolding representable_def by blast
qed

lemma representable_is_double:
  assumes "representable y"
  shows "is_double y"
proof -
  from assms obtain k :: nat and e :: int where
    yk: "y = real k * 2 powi e" and k53: "k < 2 ^ 53" and e: "- 1074 \<le> e" "e \<le> 971"
    unfolding representable_def by blast
  have p: "(0::real) < 2 powi e" by (rule zero_less_power_int) simp
  have y0: "0 \<le> y" unfolding yk using p by simp
  have rk: "real k < 2 ^ 53" using k53 by (metis of_nat_less_iff of_nat_numeral of_nat_power)
  have "y < 2 ^ 53 * 2 powi e" unfolding yk using rk p by simp
  also have "\<dots> = 2 powi (53 + e)"
    using power_int_add [of "2::real" 53 e] by simp
  also have "\<dots> \<le> 2 powi 1024" using e by (intro power_int_increasing) simp_all
  finally have yh: "y < huge" by (simp add: huge_def)
  have "round_magnitude y = y"
  proof (cases "k = 0")
    case True
    then show ?thesis by (simp add: yk round_magnitude_def)
  next
    case False
    then have k1: "1 \<le> k" by simp
    then have y: "0 < y" unfolding yk using p by simp
    define b where "b = ilog2 k"
    have kb: "2 ^ b \<le> k" "k < 2 ^ Suc b" using ilog2_bounds [OF k1] by (simp_all add: b_def)
    have "(2::nat) ^ b < 2 ^ 53" using kb(1) k53 by linarith
    then have b53: "b < 53" by (rule power_less_imp_less_exp [rotated]) simp
    have lo: "2 powi (e + int b) \<le> y"
    proof -
      have "(2::real) powi (e + int b) = 2 powi e * 2 ^ b"
        using power_int_add [of "2::real" e "int b"] by (simp add: power_int_of_nat)
      also have "\<dots> \<le> 2 powi e * real k"
        using kb(1) p by (intro mult_left_mono) (metis of_nat_le_iff of_nat_numeral of_nat_power, simp)
      finally show ?thesis by (simp add: yk mult.commute)
    qed
    have hi: "y < 2 powi (e + int b + 1)"
    proof -
      have "real k < 2 ^ Suc b" using kb(2) by (metis of_nat_less_iff of_nat_numeral of_nat_power)
      then have "y < 2 powi e * 2 ^ Suc b" unfolding yk using p by (simp add: mult.commute)
      also have "\<dots> = 2 powi (e + int (Suc b))"
        using power_int_add [of "2::real" e "int (Suc b)"]
        by (simp only: power_int_of_nat) simp
      also have "e + int (Suc b) = e + int b + 1" by simp
      finally show ?thesis .
    qed
    have ex: "exponent y = e + int b" using lo hi by (rule exponent_unique)
    have "\<exists>j::nat. y / ulp y = real j"
    proof (cases "- 1022 \<le> e + int b")
      case True
      then have u: "ulp y = 2 powi (e + int b - 52)" by (simp add: ulp_def ex max_def)
      have "e = (e + int b - 52) + int (52 - b)" using b53 by simp
      then have "(2::real) powi e = 2 powi ((e + int b - 52) + int (52 - b))" by (simp only:)
      also have "\<dots> = 2 powi (e + int b - 52) * 2 ^ (52 - b)"
        using power_int_add [of "2::real" "e + int b - 52" "int (52 - b)"]
        by (simp add: power_int_of_nat)
      finally have pe: "(2::real) powi e = 2 powi (e + int b - 52) * 2 ^ (52 - b)" .
      have nz: "(2::real) powi (e + int b - 52) \<noteq> 0" by simp
      have "y = real (k * 2 ^ (52 - b)) * 2 powi (e + int b - 52)"
        using yk pe by simp
      then have "y / 2 powi (e + int b - 52) = real (k * 2 ^ (52 - b))"
        using nz by (rule quotient_of_product)
      then have "y / ulp y = real (k * 2 ^ (52 - b))" by (simp only: u)
      then show ?thesis by blast
    next
      case False
      then have u: "ulp y = 2 powi (- 1074)" by (simp add: ulp_def ex max_def)
      obtain j :: nat where j: "e + 1074 = int j" using e(1) zero_le_imp_eq_int [of "e + 1074"] by auto
      have "e = (- 1074) + int j" using j by simp
      then have "(2::real) powi e = 2 powi ((- 1074) + int j)" by (simp only:)
      also have "\<dots> = 2 powi (- 1074) * 2 ^ j"
        using power_int_add [of "2::real" "- 1074" "int j"] by (simp add: power_int_of_nat)
      finally have pe: "(2::real) powi e = 2 powi (- 1074) * 2 ^ j" .
      have nz: "(2::real) powi (- 1074) \<noteq> 0"
        using zero_less_power_int [of "2::real" "- 1074"] by (simp del: power_int_minus)
      have "y = real (k * 2 ^ j) * 2 powi (- 1074)"
        using yk pe by (simp del: power_int_minus)
      then have "y / 2 powi (- 1074) = real (k * 2 ^ j)"
        using nz by (rule quotient_of_product)
      then have "y / ulp y = real (k * 2 ^ j)" by (simp only: u)
      then show ?thesis by blast
    qed
    then obtain j :: nat where j: "y / ulp y = real j" by blast
    have "round_half_even (y / ulp y) = int j" unfolding j by (rule round_half_even_nat)
    then have "round_magnitude y = real j * ulp y" using y by (simp add: round_magnitude_def)
    also have "\<dots> = y" using j by (simp add: field_simps)
    finally show ?thesis .
  qed
  with y0 yh show ?thesis by (simp add: is_double_def)
qed

lemma is_double_iff: "is_double y \<longleftrightarrow> representable y"
  using is_double_representable representable_is_double by blast

lemma round_half_even_nearest:
  "\<bar>of_int (round_half_even t) - t\<bar> \<le> \<bar>of_int K - t\<bar>"
proof (rule ccontr)
  assume "\<not> \<bar>of_int (round_half_even t) - t\<bar> \<le> \<bar>of_int K - t\<bar>"
  then have lt: "\<bar>of_int K - t\<bar> < \<bar>of_int (round_half_even t) - t\<bar>" by simp
  have h: "\<bar>of_int (round_half_even t) - t\<bar> \<le> 1 / 2" by (rule round_half_even_error)
  have "\<bar>real_of_int K - of_int (round_half_even t)\<bar> < 1" using lt h by linarith
  then have "\<bar>K - round_half_even t\<bar> < 1"
    by (metis of_int_abs of_int_diff of_int_less_1_iff)
  then have "K = round_half_even t" by simp
  with lt show False by simp
qed

text \<open>A rounded magnitude is as close as any multiple of the quantum.\<close>

lemma round_magnitude_nearest_multiple:
  assumes "0 < m"
  shows "\<bar>round_magnitude m - m\<bar> \<le> \<bar>of_int K * ulp m - m\<bar>"
proof -
  define q where "q = ulp m"
  have q: "0 < q" unfolding q_def by simp
  have "\<bar>of_int (round_half_even (m / q)) - m / q\<bar> * q \<le> \<bar>of_int K - m / q\<bar> * q"
    using round_half_even_nearest [of "m / q" K] q by (intro mult_right_mono) simp_all
  moreover have "\<bar>x - m / q\<bar> * q = \<bar>x * q - m\<bar>" for x
  proof -
    have "\<bar>x - m / q\<bar> * q = \<bar>(x - m / q) * q\<bar>" using q by (simp add: abs_mult)
    also have "(x - m / q) * q = x * q - m" using q by (simp add: field_simps)
    finally show ?thesis .
  qed
  ultimately have "\<bar>of_int (round_half_even (m / q)) * q - m\<bar> \<le> \<bar>of_int K * q - m\<bar>"
    by simp
  then show ?thesis using assms by (simp add: round_magnitude_def q_def)
qed

text \<open>Rounding is to a nearest double.\<close>

lemma round_magnitude_nearest:
  assumes "0 \<le> m" and "is_double y"
  shows "\<bar>round_magnitude m - m\<bar> \<le> \<bar>y - m\<bar>"
proof (cases "m = 0")
  case True
  then show ?thesis by (simp add: round_magnitude_def)
next
  case False
  with assms(1) have m: "0 < m" by simp
  define e where "e = max (exponent m) (- 1022)"
  have um: "ulp m = 2 powi (e - 52)" by (simp add: ulp_def e_def)
  show ?thesis
  proof (cases "y = 0")
    case True
    have "\<bar>round_magnitude m - m\<bar> \<le> \<bar>of_int 0 * ulp m - m\<bar>"
      using m by (rule round_magnitude_nearest_multiple)
    then show ?thesis using True by simp
  next
    case y0: False
    from assms(2) have yf: "round_magnitude y = y" and "0 \<le> y" by (simp_all add: is_double_def)
    with y0 have y: "0 < y" by simp
    define ey where "ey = max (exponent y) (- 1022)"
    define Ky where "Ky = round_half_even (y / ulp y)"
    have uy: "ulp y = 2 powi (ey - 52)" by (simp add: ulp_def ey_def)
    have yK: "y = of_int Ky * ulp y" using yf y0 by (simp add: round_magnitude_def Ky_def)
    show ?thesis
    proof (cases "e \<le> ey")
      case True
      then obtain j :: nat where j: "ey - e = int j"
        using zero_le_imp_eq_int [of "ey - e"] by auto
      have "ey - 52 = (e - 52) + int j" using j by simp
      then have "(2::real) powi (ey - 52) = 2 powi ((e - 52) + int j)" by (simp only:)
      also have "\<dots> = 2 powi (e - 52) * 2 ^ j"
        using power_int_add [of "2::real" "e - 52" "int j"] by (simp add: power_int_of_nat)
      finally have "ulp y = ulp m * 2 ^ j" by (simp only: uy um)
      then have "y = of_int (Ky * 2 ^ j) * ulp m" using yK by simp
      moreover have "\<bar>round_magnitude m - m\<bar> \<le> \<bar>of_int (Ky * 2 ^ j) * ulp m - m\<bar>"
        using m by (rule round_magnitude_nearest_multiple)
      ultimately show ?thesis by simp
    next
      case False
      then have lt: "ey < e" by simp
      have "- 1022 \<le> ey" by (simp add: ey_def)
      with lt have ee: "e = exponent m" by (simp add: e_def max_def split: if_splits)
      have "exponent y + 1 \<le> e" using lt by (simp add: ey_def)
      then have "(2::real) powi (exponent y + 1) \<le> 2 powi e"
        by (intro power_int_increasing) simp_all
      then have yz: "y < 2 powi e" using exponent_bounds(2) [OF y] by linarith
      have zm: "2 powi e \<le> m" unfolding ee using m by (rule exponent_bounds(1))
      have "(2::real) powi e = of_int (2 ^ 52) * ulp m"
        unfolding um using powi_split_low [of e] by simp
      moreover have "\<bar>round_magnitude m - m\<bar> \<le> \<bar>of_int (2 ^ 52) * ulp m - m\<bar>"
        using m by (rule round_magnitude_nearest_multiple)
      ultimately have "\<bar>round_magnitude m - m\<bar> \<le> \<bar>2 powi e - m\<bar>" by simp
      then show ?thesis using yz zm by linarith
    qed
  qed
qed

text \<open>
  Examples: the double of 0.1, two ties (to the even significand, down and up), the
  greatest finite double and the least magnitude that overflows.
\<close>

lemma round_magnitude_eval:
  assumes "2 powi e \<le> x" and "x < 2 powi (e + 1)" and "- 1022 \<le> e"
    and "round_half_even (x / 2 powi (e - 52)) = k"
  shows "round_magnitude x = of_int k * 2 powi (e - 52)"
proof -
  have "exponent x = e" using assms(1,2) by (rule exponent_unique)
  then have u: "ulp x = 2 powi (e - 52)" using assms(3) by (simp add: ulp_def max_def)
  have "0 < x" using assms(1) zero_less_power_int [of "2::real" e] by linarith
  then show ?thesis using assms(4) by (simp add: round_magnitude_def u)
qed

lemma round_tenth: "round_magnitude (1 / 10) = 3602879701896397 / 2 ^ 55"
  using round_magnitude_eval [of "- 4" "1 / 10" 7205759403792794]
  by (simp add: round_half_even_def Let_def power_int_minus_divide)

lemma round_ties:
  "round_magnitude (2 ^ 53 + 1) = 2 ^ 53" "round_magnitude (2 ^ 53 + 3) = 2 ^ 53 + 4"
  using round_magnitude_eval [of 53 "2 ^ 53 + 1" "2 ^ 52"]
    round_magnitude_eval [of 53 "2 ^ 53 + 3" "2 ^ 52 + 2"]
  by (simp_all add: round_half_even_def Let_def)

lemma round_overflow:
  "to_double False (2 ^ 1024 - 2 ^ 971) = Finite False (2 ^ 1024 - 2 ^ 971)"
  "to_double False (2 ^ 1024 - 2 ^ 970) = Infinity False"
  using round_magnitude_eval [of 1023 "2 ^ 1024 - 2 ^ 971" "2 ^ 53 - 1"]
    round_magnitude_eval [of 1023 "2 ^ 1024 - 2 ^ 970" "2 ^ 53"]
  by (simp_all add: round_half_even_def Let_def to_double_def huge_def)

section \<open>Properties of generateEqualChapters\<close>

lemma js_less_nat [simp]:
  "js_less (Finite False (real i)) (Finite False (real n)) \<longleftrightarrow> i < n"
  by (simp add: signed_def)

text \<open>The loop for a count that is a natural number below the greatest array length.\<close>

lemma equalChapters_loop_nat:
  assumes "length chs = i" and "i \<le> n" and "n < 2 ^ 32"
  shows "equalChapters_loop sd (Finite False (real n)) b i chs
           = Inr (chs @ map (\<lambda>k. \<lparr>title = b @ '' '' @ string_of_nat (k + 1),
                                    startTime = js_times (Finite False (real k)) sd\<rparr>) [i..<n])"
  using assms
proof (induction "n - i" arbitrary: i chs)
  case 0
  then have "i = n" by simp
  then show ?case by (subst equalChapters_loop.simps) (simp add: signed_def)
next
  case (Suc d)
  then have lt: "i < n" by simp
  have len: "\<not> (2::nat) ^ 32 - 1 \<le> length chs"
    using Suc.prems lt by simp
  let ?c = "\<lparr>title = b @ '' '' @ string_of_nat (i + 1),
             startTime = js_times (Finite False (real i)) sd\<rparr>"
  have "equalChapters_loop sd (Finite False (real n)) b i chs
          = equalChapters_loop sd (Finite False (real n)) b (Suc i) (chs @ [?c])"
    using lt len by (subst equalChapters_loop.simps) (simp add: signed_def)
  also have "\<dots> = Inr ((chs @ [?c]) @ map (\<lambda>k. \<lparr>title = b @ '' '' @ string_of_nat (k + 1),
                                    startTime = js_times (Finite False (real k)) sd\<rparr>) [Suc i..<n])"
    using Suc.hyps(2) Suc.prems lt by (intro Suc.hyps(1)) simp_all
  also have "\<dots> = Inr (chs @ map (\<lambda>k. \<lparr>title = b @ '' '' @ string_of_nat (k + 1),
                                    startTime = js_times (Finite False (real k)) sd\<rparr>) [i..<n])"
    using lt by (simp add: upt_conv_Cons)
  finally show ?case .
qed

lemma generateEqualChapters_nat:
  assumes "n < 2 ^ 32"
  shows "generateEqualChapters dur (Finite False (real n)) b
           = Inr (map (\<lambda>k. \<lparr>title = b @ '' '' @ string_of_nat (k + 1),
                             startTime = js_times (Finite False (real k))
                                           (js_divide dur (Finite False (real n)))\<rparr>) [0..<n])"
  using equalChapters_loop_nat [of "[]" 0 n "js_divide dur (Finite False (real n))" b] assms
  by (simp add: generateEqualChapters_def)

text \<open>
  The quotient \<open>c\<close> of a double \<open>d\<close> by a count \<open>n\<close>, and the products of \<open>c\<close> and the
  indices \<open>i < n\<close>: they are finite, close to the real quotient and products, and increase
  with \<open>i\<close> unless the quotient has rounded to 0.
\<close>

lemma quotient_bounds:
  assumes "0 \<le> r"
  shows "round_magnitude r \<le> r + r / 2 ^ 53 + least_double / 2"
    and "\<bar>round_magnitude r - r\<bar> \<le> r / 2 ^ 53 + least_double / 2"
  using round_magnitude_absolute [OF assms] by linarith+

lemma product_relative:
  assumes "c = real k * least_double"
  shows "\<bar>round_magnitude (real i * c) - real i * c\<bar> \<le> real i * c / 2 ^ 53"
proof -
  have "real i * c = real (i * k) * least_double" using assms by simp
  then show ?thesis by (rule round_magnitude_relative)
qed

lemma quotient_finite:
  assumes "is_double d" and "1 \<le> n"
  shows "round_magnitude (d / real n) < huge"
proof (cases "n = 1")
  case True
  then show ?thesis using is_doubleD [OF assms(1)] by simp
next
  case False
  with assms(2) have "2 \<le> real n" by simp
  moreover have d: "0 \<le> d" "d < huge" using is_doubleD [OF assms(1)] by simp_all
  ultimately have "d / real n \<le> d / 2"
    by (intro divide_left_mono) simp_all
  moreover have "0 \<le> d / real n" using d by simp
  from quotient_bounds(1) [OF this]
  have "round_magnitude (d / real n) \<le> d / real n + d / real n / 2 ^ 53 + least_double / 2" .
  ultimately have "round_magnitude (d / real n) \<le> d / 2 + d / 2 / 2 ^ 53 + least_double / 2"
    by (simp add: field_simps)
  then show ?thesis using d huge_large least_le_one(1) by simp
qed

lemma product_finite:
  assumes "is_double d" and "i < n" and "n < 2 ^ 32"
  shows "round_magnitude (real i * round_magnitude (d / real n)) < huge"
proof -
  define r where "r = d / real n"
  define c where "c = round_magnitude r"
  define w where "w = real i * c"
  define x where "x = round_magnitude w"
  define a where "a = real i * r"
  have d: "0 \<le> d" "d < huge" using is_doubleD [OF assms(1)] by simp_all
  have n: "0 < real n" using assms(2) by simp
  have r: "0 \<le> r" unfolding r_def using d by simp
  have nr: "real n * r = d" unfolding r_def using n by simp
  from round_magnitude_grid [OF r] obtain k :: nat where k: "c = real k * least_double"
    unfolding c_def by blast
  have c0: "0 \<le> c" unfolding c_def using r by (rule round_magnitude_nonneg)
  have w0: "0 \<le> w" unfolding w_def using c0 by simp
  have x: "x \<le> w + w / 2 ^ 53"
    unfolding x_def w_def using product_relative [OF k, of i] by linarith
  have i: "real i \<le> real n - 1" "real i \<le> 2 ^ 32" using assms(2,3) by simp_all
  have "x < huge"
  proof (cases "least_normal \<le> r")
    case True
    have "c \<le> r + r / 2 ^ 53" unfolding c_def using round_magnitude_normal [OF True] by linarith
    then have "w \<le> real i * (r + r / 2 ^ 53)" unfolding w_def by (intro mult_left_mono) simp_all
    also have "\<dots> = a * (1 + 1 / 2 ^ 53)" unfolding a_def by (simp add: algebra_simps)
    finally have w: "w \<le> a * (1 + 1 / 2 ^ 53)" .
    have "real i * r \<le> (real n - 1) * r" using i(1) r by (intro mult_right_mono) simp_all
    also have "\<dots> = real n * r - r" by (simp add: algebra_simps)
    finally have ir: "a \<le> d - r" unfolding a_def nr .
    have "real n * r \<le> 2 ^ 32 * r" using assms(3) r by (intro mult_right_mono) simp_all
    then have dr: "d \<le> 2 ^ 32 * r" unfolding nr .
    have "x \<le> d" using x w ir dr r by simp
    then show ?thesis using d by simp
  next
    case False
    then have "r < 1" using least_le_one(2) by linarith
    moreover have "c \<le> r + r / 2 ^ 53 + least_double / 2"
      unfolding c_def using r by (rule quotient_bounds(1))
    ultimately have "c \<le> 3" using least_le_one(1) r by simp
    then have "w \<le> real i * 3" unfolding w_def by (intro mult_left_mono) simp_all
    then have "w \<le> 2 ^ 32 * 3" using i(2) by simp
    then have "x \<le> 2 ^ 35" using x by simp
    then show ?thesis using huge_large by simp
  qed
  then show ?thesis unfolding x_def w_def c_def r_def .
qed

lemma product_error:
  assumes "0 \<le> d" and "0 < n"
  shows "\<bar>round_magnitude (real i * round_magnitude (d / real n)) - real i * (d / real n)\<bar>
           \<le> real i * (d / real n / 2 ^ 51 + least_double)"
proof -
  define r where "r = d / real n"
  define c where "c = round_magnitude r"
  define w where "w = real i * c"
  define x where "x = round_magnitude w"
  define e where "e = \<bar>c - r\<bar>"
  have r: "0 \<le> r" unfolding r_def using assms by simp
  from round_magnitude_grid [OF r] obtain k :: nat where k: "c = real k * least_double"
    unfolding c_def by blast
  have e: "e \<le> r / 2 ^ 53 + least_double / 2"
    unfolding e_def c_def by (rule quotient_bounds(2) [OF r])
  have xw: "\<bar>x - w\<bar> \<le> w / 2 ^ 53"
    unfolding x_def w_def using product_relative [OF k, of i] .
  have we: "\<bar>w - real i * r\<bar> = real i * e"
    unfolding w_def e_def by (simp add: abs_mult flip: right_diff_distrib)
  have "\<bar>x - real i * r\<bar> \<le> \<bar>x - w\<bar> + \<bar>w - real i * r\<bar>" by simp
  also have "\<dots> \<le> w / 2 ^ 53 + real i * e" using xw we by simp
  also have "\<dots> = real i * (c / 2 ^ 53 + e)" unfolding w_def by (simp add: algebra_simps)
  also have "\<dots> \<le> real i * (r / 2 ^ 51 + least_double)"
  proof (intro mult_left_mono)
    have "c \<le> r + e" unfolding e_def by simp
    then show "c / 2 ^ 53 + e \<le> r / 2 ^ 51 + least_double"
      using e r least_double_pos(2) by (simp del: least_double_pos)
  qed simp
  finally show ?thesis unfolding x_def w_def c_def r_def .
qed

lemma product_increasing:
  assumes "least_double / 2 < d / real n" and "i < j" and "j < n" and "n < 2 ^ 32"
  shows "round_magnitude (real i * round_magnitude (d / real n))
           < round_magnitude (real j * round_magnitude (d / real n))"
proof -
  define r where "r = d / real n"
  define c where "c = round_magnitude r"
  define a where "a = real i * c"
  define b where "b = real j * c"
  have r: "0 \<le> r" unfolding r_def using assms(1) least_double_pos(1) by linarith
  from round_magnitude_grid [OF r] obtain k :: nat where k: "c = real k * least_double"
    unfolding c_def by blast
  have c: "0 < c" unfolding c_def r_def using assms(1) by (rule round_magnitude_pos)
  have xa: "round_magnitude a \<le> a + a / 2 ^ 53"
    unfolding a_def using product_relative [OF k, of i] by linarith
  have xb: "b - b / 2 ^ 53 \<le> round_magnitude b"
    unfolding b_def using product_relative [OF k, of j] by linarith
  have "real i + 1 \<le> real j" using assms(2) by simp
  then have "(real i + 1) * c \<le> real j * c" using c by (intro mult_right_mono) simp_all
  then have ab: "a + c \<le> b" unfolding a_def b_def by (simp add: algebra_simps)
  have "real j \<le> 2 ^ 32" using assms(3,4) by simp
  then have "real j * c \<le> 2 ^ 32 * c" using c by (intro mult_right_mono) simp_all
  then have b: "b \<le> 2 ^ 32 * c" unfolding b_def .
  have a0: "0 \<le> a" unfolding a_def using c by simp
  have "a + a / 2 ^ 53 < b - b / 2 ^ 53"
    using ab b a0 c by simp
  then have "round_magnitude a < round_magnitude b" using xa xb by simp
  then show ?thesis unfolding a_def b_def c_def r_def .
qed

text \<open>The rendering of \<open>i + 1\<close> is its decimal numeral.\<close>

lemma digit_char:
  assumes "n < 10"
  shows "is_digit (''0123456789'' ! n)" and "of_char (''0123456789'' ! n) - 48 = n"
    and "''0123456789'' ! n = CHR ''0'' \<longleftrightarrow> n = 0"
proof -
  have len: "n < length ''0123456789''" using assms by simp
  then show "is_digit (''0123456789'' ! n)"
    unfolding is_digit_def by (rule nth_mem)
  have "map (\<lambda>c. of_char c - 48) ''0123456789'' = [0..<10]"
    by (simp add: upt_rec)
  then have "map (\<lambda>c. of_char c - 48) ''0123456789'' ! n = [0..<10] ! n"
    by (simp only:)
  then show v: "of_char (''0123456789'' ! n) - 48 = n"
    using assms by (simp only: nth_map [OF len] nth_upt)
  show "''0123456789'' ! n = CHR ''0'' \<longleftrightarrow> n = 0"
  proof
    assume "''0123456789'' ! n = CHR ''0''"
    with v show "n = 0" by simp
  next
    assume "n = 0"
    then show "''0123456789'' ! n = CHR ''0''" by simp
  qed
qed

lemma string_of_nat_decimal: "decimal_numeral (string_of_nat n) n"
proof (induction n rule: string_of_nat.induct)
  case (1 n)
  show ?case
  proof (cases "n < 10")
    case True
    then have "string_of_nat n = [''0123456789'' ! n]"
      by (subst string_of_nat.simps) simp
    then show ?thesis
      using digit_char [OF True] by (simp add: decimal_numeral_def decimal_value_def)
  next
    case False
    let ?q = "string_of_nat (n div 10)"
    have e: "string_of_nat n = ?q @ [''0123456789'' ! (n mod 10)]"
      using False by (subst string_of_nat.simps) simp
    have ih: "decimal_numeral ?q (n div 10)" using "1.IH" False by simp
    have m: "n mod 10 < 10" by simp
    have q0: "0 < n div 10" using False by simp
    have "hd ?q \<noteq> CHR ''0''"
    proof
      assume "hd ?q = CHR ''0''"
      with ih have "?q = ''0''" by (simp add: decimal_numeral_def)
      with ih have "n div 10 = 0" by (simp add: decimal_numeral_def decimal_value_def)
      with q0 show False by simp
    qed
    moreover have "hd (string_of_nat n) = hd ?q"
      using ih by (simp add: e decimal_numeral_def)
    moreover have "decimal_value (string_of_nat n) = n"
      using ih digit_char(2) [OF m] by (simp add: e decimal_numeral_def decimal_value_def)
    moreover have "list_all is_digit (string_of_nat n)"
      using ih digit_char(1) [OF m] by (simp add: e decimal_numeral_def)
    ultimately show ?thesis by (simp add: decimal_numeral_def e)
  qed
qed

lemma generateEqualChapters_values:
  assumes "is_double dur" and "1 \<le> n" and "n < 2 ^ 32"
  shows "generateEqualChapters (Finite False dur) (Finite False (real n)) b
           = Inr (map (\<lambda>k. \<lparr>title = b @ '' '' @ string_of_nat (k + 1),
                  startTime = Finite False
                    (round_magnitude (real k * round_magnitude (dur / real n)))\<rparr>) [0..<n])"
proof -
  have q: "js_divide (Finite False dur) (Finite False (real n))
             = Finite False (round_magnitude (dur / real n))"
    using assms(2) to_double_finite [OF quotient_finite [OF assms(1,2)]] by simp
  have p: "js_times (Finite False (real k)) (Finite False (round_magnitude (dur / real n)))
             = Finite False (round_magnitude (real k * round_magnitude (dur / real n)))"
    if "k < n" for k
    using to_double_finite [OF product_finite [OF assms(1) that assms(3)]] by simp
  show ?thesis
    unfolding generateEqualChapters_nat [OF assms(3)] q
    using p by simp
qed

text \<open>
  C3, as the code has it. For every duration that is a finite double above 0, every
  count that is a natural number from 1 to \<open>2 ^ 32 - 1\<close> and every title prefix,
  generateEqualChapters returns exactly count chapter definitions. Entry i (from 0) has
  as title the prefix, a space, and the decimal numeral of i + 1; its startTime is the
  double \<open>i * (duration / count)\<close>, each operation rounded: a finite double that differs
  from the real number \<open>i * duration / count\<close> by at most \<open>2 ^ -51\<close> of it and i times the
  least double. The first startTime is 0. The startTimes are strictly increasing unless
  the quotient \<open>duration / count\<close> has rounded to 0, which it does exactly when it is at
  most half the least double; all startTimes are then 0.
\<close>

theorem generateEqualChapters_spec:
  assumes "is_double dur" and "0 < dur" and "1 \<le> n" and "n < 2 ^ 32"
  shows "\<exists>chapters.
           generateEqualChapters (Finite False dur) (Finite False (real n)) baseTitle = Inr chapters
         \<and> length chapters = n
         \<and> (\<forall>i < n.
               (\<exists>digits. title (chapters ! i) = baseTitle @ '' '' @ digits
                   \<and> decimal_numeral digits (i + 1))
             \<and> startTime (chapters ! i)
                 = js_times (Finite False (real i))
                     (js_divide (Finite False dur) (Finite False (real n)))
             \<and> (\<exists>x. startTime (chapters ! i) = Finite False x \<and> is_double x
                   \<and> \<bar>x - real i * (dur / real n)\<bar>
                        \<le> real i * (dur / real n / 2 ^ 51 + least_double)))
         \<and> startTime (chapters ! 0) = Finite False 0
         \<and> (least_double / 2 < dur / real n \<longrightarrow>
               (\<forall>i j. i < j \<and> j < n \<longrightarrow>
                  js_less (startTime (chapters ! i)) (startTime (chapters ! j))))
         \<and> (dur / real n \<le> least_double / 2 \<longrightarrow>
               (\<forall>i < n. startTime (chapters ! i) = Finite False 0))"
proof -
  define x where "x k = round_magnitude (real k * round_magnitude (dur / real n))" for k
  define chapters where
    "chapters = map (\<lambda>k. \<lparr>title = baseTitle @ '' '' @ string_of_nat (k + 1),
                           startTime = Finite False (x k)\<rparr>) [0..<n]"
  have d: "0 \<le> dur" using assms(2) by simp
  have n: "0 < n" using assms(3) by simp
  have res: "generateEqualChapters (Finite False dur) (Finite False (real n)) baseTitle
               = Inr chapters"
    unfolding chapters_def x_def by (rule generateEqualChapters_values [OF assms(1,3,4)])
  have len: "length chapters = n" by (simp add: chapters_def)
  have nth: "chapters ! i = \<lparr>title = baseTitle @ '' '' @ string_of_nat (i + 1),
                               startTime = Finite False (x i)\<rparr>" if "i < n" for i
    using that by (simp add: chapters_def)
  have q: "js_divide (Finite False dur) (Finite False (real n))
             = Finite False (round_magnitude (dur / real n))"
    using assms(3) to_double_finite [OF quotient_finite [OF assms(1,3)]] by simp
  have formula: "startTime (chapters ! i)
      = js_times (Finite False (real i)) (js_divide (Finite False dur) (Finite False (real n)))"
    if "i < n" for i
    unfolding q nth [OF that] x_def
    using to_double_finite [OF product_finite [OF assms(1) that assms(4)]] by simp
  have titles: "\<exists>digits. title (chapters ! i) = baseTitle @ '' '' @ digits
                   \<and> decimal_numeral digits (i + 1)" if "i < n" for i
    using nth [OF that] string_of_nat_decimal [of "i + 1"] by auto
  have close: "\<exists>y. startTime (chapters ! i) = Finite False y \<and> is_double y
                   \<and> \<bar>y - real i * (dur / real n)\<bar>
                        \<le> real i * (dur / real n / 2 ^ 51 + least_double)" if "i < n" for i
  proof -
    have "0 \<le> real i * round_magnitude (dur / real n)"
      using d by (simp add: round_magnitude_nonneg)
    then have "is_double (x i)"
      unfolding x_def using product_finite [OF assms(1) that assms(4)] by (rule is_double_round)
    then show ?thesis
      using nth [OF that] product_error [OF d n, of i] by (simp add: x_def)
  qed
  have x0: "x 0 = 0" by (simp add: x_def round_magnitude_def)
  have first: "startTime (chapters ! 0) = Finite False 0"
    using nth [OF n] x0 by simp
  have incr: "js_less (startTime (chapters ! i)) (startTime (chapters ! j))"
    if "least_double / 2 < dur / real n" and "i < j" and "j < n" for i j
  proof -
    have "x i < x j"
      unfolding x_def using that assms(4) by (intro product_increasing)
    moreover have "i < n" using that by simp
    ultimately show ?thesis
      using nth [of i] nth [of j] that(3) by (simp add: signed_def)
  qed
  have under: "startTime (chapters ! i) = Finite False 0"
    if "dur / real n \<le> least_double / 2" and "i < n" for i
  proof -
    have "round_magnitude (dur / real n) = 0"
      using d that(1) by (intro round_magnitude_underflow) simp_all
    then have "x i = 0" by (simp add: x_def round_magnitude_def)
    then show ?thesis using nth [OF that(2)] by simp
  qed
  show ?thesis
    using res len formula titles close first incr under by (intro exI [of _ chapters]) blast
qed

text \<open>The five equal chapters of a 100 s video.\<close>

lemma round_magnitude_examples:
  "round_magnitude 0 = 0" "round_magnitude 20 = 20" "round_magnitude 40 = 40"
  "round_magnitude 60 = 60" "round_magnitude 80 = 80" "round_magnitude 100 = 100"
  using round_magnitude_nat [of 0] round_magnitude_nat [of 20] round_magnitude_nat [of 40]
    round_magnitude_nat [of 60] round_magnitude_nat [of 80] round_magnitude_nat [of 100]
  by simp_all

lemma five_equal_chapters:
  "generateEqualChapters (Finite False 100) (Finite False 5) ''Chapter''
     = Inr [\<lparr>title = ''Chapter 1'', startTime = Finite False 0\<rparr>,
            \<lparr>title = ''Chapter 2'', startTime = Finite False 20\<rparr>,
            \<lparr>title = ''Chapter 3'', startTime = Finite False 40\<rparr>,
            \<lparr>title = ''Chapter 4'', startTime = Finite False 60\<rparr>,
            \<lparr>title = ''Chapter 5'', startTime = Finite False 80\<rparr>]"
proof -
  have d: "is_double 100" using is_double_nat [of 100] by simp
  have u: "[0..<5] = [0, 1, 2, 3, 4]" by (simp add: upt_rec)
  show ?thesis
    using generateEqualChapters_values [OF d, of 5 "''Chapter''"]
    by (simp add: u round_magnitude_examples string_of_nat.simps)
qed

theorem generateEqualChapters_spec_witness:
  "is_double 100 \<and> (0::real) < 100 \<and> (1::nat) \<le> 5 \<and> (5::nat) < 2 ^ 32
   \<and> least_double / 2 < 100 / real 5
   \<and> generateEqualChapters (Finite False 100) (Finite False 5) ''Chapter''
       = Inr [\<lparr>title = ''Chapter 1'', startTime = Finite False 0\<rparr>,
              \<lparr>title = ''Chapter 2'', startTime = Finite False 20\<rparr>,
              \<lparr>title = ''Chapter 3'', startTime = Finite False 40\<rparr>,
              \<lparr>title = ''Chapter 4'', startTime = Finite False 60\<rparr>,
              \<lparr>title = ''Chapter 5'', startTime = Finite False 80\<rparr>]
   \<and> decimal_numeral ''5'' 5
   \<and> js_less (Finite False 60) (Finite False 80)"
proof -
  have h: "is_double 100" "(0::real) < 100" "(1::nat) \<le> 5" "(5::nat) < 2 ^ 32"
    using is_double_nat [of 100] by simp_all
  have nu: "least_double / 2 < 100 / real 5"
    using least_le_one(1) by simp
  from generateEqualChapters_spec [OF h, of "''Chapter''"] obtain chapters where
    c: "generateEqualChapters (Finite False 100) (Finite False (real 5)) ''Chapter'' = Inr chapters"
    and t: "\<forall>i < 5. \<exists>digits. title (chapters ! i) = ''Chapter'' @ '' '' @ digits
                   \<and> decimal_numeral digits (i + 1)"
    and s: "least_double / 2 < 100 / real 5 \<longrightarrow>
               (\<forall>i j. i < j \<and> j < 5 \<longrightarrow>
                  js_less (startTime (chapters ! i)) (startTime (chapters ! j)))"
    by blast
  have e: "chapters = [\<lparr>title = ''Chapter 1'', startTime = Finite False 0\<rparr>,
              \<lparr>title = ''Chapter 2'', startTime = Finite False 20\<rparr>,
              \<lparr>title = ''Chapter 3'', startTime = Finite False 40\<rparr>,
              \<lparr>title = ''Chapter 4'', startTime = Finite False 60\<rparr>,
              \<lparr>title = ''Chapter 5'', startTime = Finite False 80\<rparr>]"
    using c five_equal_chapters by simp
  have "(4::nat) < 5" by simp
  with t have "\<exists>digits. title (chapters ! 4) = ''Chapter'' @ '' '' @ digits
                   \<and> decimal_numeral digits (4 + 1)" by blast
  then have t5: "decimal_numeral ''5'' 5" unfolding e by simp
  have "(3::nat) < 4 \<and> (4::nat) < 5" by simp
  with s nu have "js_less (startTime (chapters ! 3)) (startTime (chapters ! 4))" by blast
  then have s5: "js_less (Finite False 60) (Finite False 80)" unfolding e by simp
  show ?thesis
    using h nu five_equal_chapters t5 s5 by simp
qed

text \<open>
  C3 as stated fails. For the duration \<open>Infinity\<close> (above 0, and the duration of a live
  stream) the first startTime is \<open>0 * Infinity\<close>, which is not a number. For the least
  double as duration and two chapters the quotient rounds to 0 and both startTimes are
  0, not increasing.
\<close>

theorem generateEqualChapters_extreme_duration_counterexample:
  "js_less (Finite False 0) (Infinity False)
   \<and> generateEqualChapters (Infinity False) (Finite False 2) ''Chapter''
       = Inr [\<lparr>title = ''Chapter 1'', startTime = NaN\<rparr>,
              \<lparr>title = ''Chapter 2'', startTime = Infinity False\<rparr>]
   \<and> is_double least_double \<and> 0 < least_double
   \<and> generateEqualChapters (Finite False least_double) (Finite False 2) ''Chapter''
       = Inr [\<lparr>title = ''Chapter 1'', startTime = Finite False 0\<rparr>,
              \<lparr>title = ''Chapter 2'', startTime = Finite False 0\<rparr>]
   \<and> js_less (Finite False 0) (Finite False 0) = False"
proof -
  have u: "[0..<2] = [0, 1]" by (simp add: upt_rec)
  have a: "generateEqualChapters (Infinity False) (Finite False 2) ''Chapter''
       = Inr [\<lparr>title = ''Chapter 1'', startTime = NaN\<rparr>,
              \<lparr>title = ''Chapter 2'', startTime = Infinity False\<rparr>]"
    using generateEqualChapters_nat [of 2 "Infinity False" "''Chapter''"]
    by (simp add: u string_of_nat.simps)
  have z: "round_magnitude (least_double / 2) = 0"
    by (rule round_magnitude_underflow) simp_all
  have b: "generateEqualChapters (Finite False least_double) (Finite False 2) ''Chapter''
       = Inr [\<lparr>title = ''Chapter 1'', startTime = Finite False 0\<rparr>,
              \<lparr>title = ''Chapter 2'', startTime = Finite False 0\<rparr>]"
    using generateEqualChapters_values [OF is_double_least, of 2 "''Chapter''"]
    by (simp add: u z round_magnitude_examples(1) string_of_nat.simps)
  show ?thesis
    using a b is_double_least by (simp add: signed_def)
qed

section \<open>Properties of the playback position tracker\<close>

lemma findIndex_from_found:
  "findIndex_from p xs k \<noteq> -1 \<Longrightarrow>
     \<exists>i < length xs. findIndex_from p xs k = int (k + i) \<and> p (xs ! i) (k + i)
        \<and> (\<forall>j < i. \<not> p (xs ! j) (k + j))"
proof (induction xs arbitrary: k)
  case Nil
  then show ?case by simp
next
  case (Cons x xs)
  show ?case
  proof (cases "p x k")
    case True
    then show ?thesis by (intro exI [of _ 0]) simp
  next
    case False
    with Cons.prems have "findIndex_from p xs (Suc k) \<noteq> -1" by simp
    from Cons.IH [OF this] obtain i where i: "i < length xs"
      "findIndex_from p xs (Suc k) = int (Suc k + i)" "p (xs ! i) (Suc k + i)"
      "\<forall>j < i. \<not> p (xs ! j) (Suc k + j)" by blast
    show ?thesis
    proof (intro exI [of _ "Suc i"] conjI allI impI)
      fix j assume "j < Suc i"
      then show "\<not> p ((x # xs) ! j) (k + j)"
        using False i(4) by (cases j) auto
    qed (use i False in auto)
  qed
qed

lemma findIndex_from_none:
  "findIndex_from p xs k = -1 \<Longrightarrow> i < length xs \<Longrightarrow> \<not> p (xs ! i) (k + i)"
proof (induction xs arbitrary: k i)
  case Nil
  then show ?case by simp
next
  case (Cons x xs)
  from Cons.prems(1) have nx: "\<not> p x k" and rest: "findIndex_from p xs (Suc k) = -1"
    by (auto split: if_splits)
  show ?case
  proof (cases i)
    case 0
    then show ?thesis using nx by simp
  next
    case (Suc m)
    then have "m < length xs" using Cons.prems(2) by simp
    from Cons.IH [OF rest this] show ?thesis using Suc by simp
  qed
qed

lemma sorted_startTime_le:
  "sorted (map startTime chs) \<Longrightarrow> i \<le> j \<Longrightarrow> j < length chs \<Longrightarrow>
     startTime (chs ! i) \<le> startTime (chs ! j)"
  using sorted_nth_mono [of "map startTime chs" i j] by simp

lemma in_chapter_greatest:
  assumes srt: "sorted (map startTime chs)" and i: "i < length chs"
    and p: "in_chapter chs t (chs ! i) i"
  shows "startTime (chs ! i) \<le> t
       \<and> (\<forall>j < length chs. startTime (chs ! j) \<le> t \<longrightarrow> j \<le> i)
       \<and> (i + 1 < length chs \<longrightarrow> t < startTime (chs ! (i + 1)))"
proof (intro conjI allI impI)
  show le: "startTime (chs ! i) \<le> t"
    using p by (simp add: in_chapter_def)
  show nxt: "t < startTime (chs ! (i + 1))" if "i + 1 < length chs"
    using p that by (simp add: in_chapter_def at_index_def)
  fix j assume j: "j < length chs" "startTime (chs ! j) \<le> t"
  show "j \<le> i"
  proof (rule ccontr)
    assume "\<not> j \<le> i"
    then have "i + 1 \<le> j" by simp
    then have "startTime (chs ! (i + 1)) \<le> startTime (chs ! j)"
      using sorted_startTime_le [OF srt _ j(1)] by simp
    moreover have "t < startTime (chs ! (i + 1))"
      using nxt \<open>i + 1 \<le> j\<close> j(1) by simp
    ultimately show False using j(2) by simp
  qed
qed

lemma in_chapter_exists:
  assumes srt: "sorted (map startTime chs)" and k: "k < length chs" "startTime (chs ! k) \<le> t"
  shows "\<exists>i < length chs. in_chapter chs t (chs ! i) i"
proof -
  define S where "S = {i. i < length chs \<and> startTime (chs ! i) \<le> t}"
  have fin: "finite S" and ne: "S \<noteq> {}"
    using k by (auto simp: S_def)
  define m where "m = Max S"
  have mS: "m \<in> S" unfolding m_def using fin ne by (rule Max_in)
  have mx: "j \<le> m" if "j \<in> S" for j unfolding m_def using fin that by (rule Max_ge)
  have "in_chapter chs t (chs ! m) m"
  proof (cases "m + 1 < length chs")
    case True
    have "\<not> startTime (chs ! (m + 1)) \<le> t"
      using mx [of "m + 1"] True by (auto simp: S_def)
    then show ?thesis using mS True by (simp add: in_chapter_def at_index_def S_def)
  next
    case False
    then show ?thesis using mS by (simp add: in_chapter_def at_index_def S_def)
  qed
  then show ?thesis using mS by (auto simp: S_def)
qed

lemma equal_chapters_eval:
  "equal_chapters =
     [\<lparr>title = ''Chapter 1'', startTime = 0, thumbnailUrl = None\<rparr>,
      \<lparr>title = ''Chapter 2'', startTime = 20, thumbnailUrl = None\<rparr>,
      \<lparr>title = ''Chapter 3'', startTime = 40, thumbnailUrl = None\<rparr>,
      \<lparr>title = ''Chapter 4'', startTime = 60, thumbnailUrl = None\<rparr>,
      \<lparr>title = ''Chapter 5'', startTime = 80, thumbnailUrl = None\<rparr>]"
  by (simp add: equal_chapters_def five_chapters_def)

lemmas tracker_eval =
  onVideoTimeUpdate_def playback_at_def demo_app_def demo_page_def demo_video_def new_video_def
  video_at_def upd_media_def findIndex_def in_chapter_def at_index_def set_currentChapterIndex_def

text \<open>
  C2, as the code has it. For chapters ordered by startTime and a video element at
  playback time t: when some chapter starts at or before t, the tracker stores the
  greatest index i with startTime i \<le> t (and the next chapter, if any, starts after t);
  when none does, it leaves the stored index as it was (it does not store -1). Running it
  twice is running it once, only currentChapterIndex changes, and it is written only when
  the new value differs from the stored one.
\<close>

theorem onVideoTimeUpdate_tracks:
  assumes srt: "sorted (map startTime (chapters a))"
    and ref: "videoPlayerRef a = Some r" and vid: "video_at (page a) r = Some v"
  shows "((\<exists>i < length (chapters a). startTime (chapters a ! i) \<le> currentTime v) \<longrightarrow>
            0 \<le> currentChapterIndex (onVideoTimeUpdate a)
          \<and> nat (currentChapterIndex (onVideoTimeUpdate a)) < length (chapters a)
          \<and> startTime (chapters a ! nat (currentChapterIndex (onVideoTimeUpdate a))) \<le> currentTime v
          \<and> (\<forall>j < length (chapters a). startTime (chapters a ! j) \<le> currentTime v \<longrightarrow>
                 j \<le> nat (currentChapterIndex (onVideoTimeUpdate a)))
          \<and> (nat (currentChapterIndex (onVideoTimeUpdate a)) + 1 < length (chapters a) \<longrightarrow>
                 currentTime v
                   < startTime (chapters a ! (nat (currentChapterIndex (onVideoTimeUpdate a)) + 1))))
       \<and> ((\<forall>i < length (chapters a). currentTime v < startTime (chapters a ! i)) \<longrightarrow>
            onVideoTimeUpdate a = a)
       \<and> onVideoTimeUpdate (onVideoTimeUpdate a) = onVideoTimeUpdate a
       \<and> (currentChapterIndex (onVideoTimeUpdate a) = currentChapterIndex a \<longrightarrow>
            onVideoTimeUpdate a = a)
       \<and> onVideoTimeUpdate a =
            a\<lparr>currentChapterIndex := currentChapterIndex (onVideoTimeUpdate a),
              index_writes := index_writes (onVideoTimeUpdate a)\<rparr>
       \<and> index_writes (onVideoTimeUpdate a) \<le> index_writes a + 1"
proof -
  let ?chs = "chapters a" and ?t = "currentTime v"
  let ?ix = "findIndex (in_chapter ?chs ?t) ?chs"
  have upd: "onVideoTimeUpdate a =
      (if ?ix \<noteq> -1 \<and> currentChapterIndex a \<noteq> ?ix then set_currentChapterIndex ?ix a else a)"
    using ref vid by (simp add: onVideoTimeUpdate_def)
  have cur: "currentChapterIndex (onVideoTimeUpdate a) = (if ?ix \<noteq> -1 then ?ix else currentChapterIndex a)"
    by (simp add: upd set_currentChapterIndex_def)
  have A: "0 \<le> ?ix \<and> nat ?ix < length ?chs \<and> startTime (?chs ! nat ?ix) \<le> ?t
          \<and> (\<forall>j < length ?chs. startTime (?chs ! j) \<le> ?t \<longrightarrow> j \<le> nat ?ix)
          \<and> (nat ?ix + 1 < length ?chs \<longrightarrow> ?t < startTime (?chs ! (nat ?ix + 1)))
          \<and> ?ix \<noteq> -1"
    if ex: "\<exists>i < length ?chs. startTime (?chs ! i) \<le> ?t"
  proof -
    from ex obtain k where "k < length ?chs" "startTime (?chs ! k) \<le> ?t" by blast
    from in_chapter_exists [OF srt this] obtain i where
      i: "i < length ?chs" "in_chapter ?chs ?t (?chs ! i) i" by blast
    have ne: "?ix \<noteq> -1"
      using findIndex_from_none [of "in_chapter ?chs ?t" ?chs 0 i] i
      by (auto simp: findIndex_def)
    from findIndex_from_found [of "in_chapter ?chs ?t" ?chs 0] ne obtain m where
      m: "m < length ?chs" "?ix = int m" "in_chapter ?chs ?t (?chs ! m) m"
      by (auto simp: findIndex_def)
    from in_chapter_greatest [OF srt m(1) m(3)] m(1) m(2) ne show ?thesis by simp
  qed
  have B: "?ix = -1" if no: "\<forall>i < length ?chs. ?t < startTime (?chs ! i)"
  proof (rule ccontr)
    assume "?ix \<noteq> -1"
    from findIndex_from_found [of "in_chapter ?chs ?t" ?chs 0] this obtain m where
      "m < length ?chs" "in_chapter ?chs ?t (?chs ! m) m"
      by (auto simp: findIndex_def)
    then show False using no by (auto simp: in_chapter_def)
  qed
  have same: "chapters (onVideoTimeUpdate a) = ?chs" "videoPlayerRef (onVideoTimeUpdate a) = Some r"
    "page (onVideoTimeUpdate a) = page a"
    using ref by (simp_all add: upd set_currentChapterIndex_def)
  have idem: "onVideoTimeUpdate (onVideoTimeUpdate a) = onVideoTimeUpdate a"
    using same vid cur by (simp add: onVideoTimeUpdate_def [of "onVideoTimeUpdate a"] Let_def)
  show ?thesis
    using A B idem by (auto simp: cur upd set_currentChapterIndex_def)
qed


theorem onVideoTimeUpdate_tracks_witness:
  "sorted (map startTime (chapters (playback_at 45 (demo_app equal_chapters))))
   \<and> videoPlayerRef (playback_at 45 (demo_app equal_chapters)) = Some 0
   \<and> video_at (page (playback_at 45 (demo_app equal_chapters))) 0
        = Some (demo_video\<lparr>currentTime := 45\<rparr>)
   \<and> currentChapterIndex (onVideoTimeUpdate (playback_at 45 (demo_app equal_chapters))) = 2
   \<and> currentChapterIndex (onVideoTimeUpdate (playback_at (79999 / 1000) (demo_app equal_chapters))) = 3
   \<and> currentChapterIndex (onVideoTimeUpdate (playback_at 80 (demo_app equal_chapters))) = 4
   \<and> onVideoTimeUpdate (onVideoTimeUpdate (playback_at 45 (demo_app equal_chapters)))
        = onVideoTimeUpdate (playback_at 45 (demo_app equal_chapters))"
proof -
  let ?a = "playback_at 45 (demo_app equal_chapters)"
  have h1: "sorted (map startTime (chapters ?a))"
    by (simp add: playback_at_def demo_app_def equal_chapters_eval)
  have h2: "videoPlayerRef ?a = Some 0"
    by (simp add: playback_at_def demo_app_def)
  have h3: "video_at (page ?a) 0 = Some (demo_video\<lparr>currentTime := 45\<rparr>)"
    by (simp add: playback_at_def demo_app_def demo_page_def video_at_def upd_media_def)
  note t = onVideoTimeUpdate_tracks [OF h1 h2 h3]
  have idem: "onVideoTimeUpdate (onVideoTimeUpdate ?a) = onVideoTimeUpdate ?a"
    using t by blast
  have e1: "currentChapterIndex (onVideoTimeUpdate ?a) = 2"
    by (simp add: tracker_eval equal_chapters_eval)
  have e2: "currentChapterIndex
              (onVideoTimeUpdate (playback_at (79999 / 1000) (demo_app equal_chapters))) = 3"
    by (simp add: tracker_eval equal_chapters_eval)
  have e3: "currentChapterIndex (onVideoTimeUpdate (playback_at 80 (demo_app equal_chapters))) = 4"
    by (simp add: tracker_eval equal_chapters_eval)
  show ?thesis
    using h1 h2 h3 idem e1 e2 e3 by simp
qed

text \<open>
  C2 as stated fails: after playback at 25 s has selected the second of two chapters
  starting at 10 s and 20 s, a time update at 5 s, before the first chapter, leaves index 1
  stored.
\<close>

theorem onVideoTimeUpdate_keeps_index_counterexample:
  "sorted (map startTime late_chapters)
   \<and> (5::real) < startTime (late_chapters ! 0)
   \<and> currentChapterIndex
        (onVideoTimeUpdate (playback_at 5
           (onVideoTimeUpdate (playback_at 25 (demo_app late_chapters))))) = 1"
  by (simp add: tracker_eval late_chapters_def)


section \<open>Properties of chapter navigation\<close>

lemma try_catch_log_seek_error: "fst (try_catch body log_seek_error a) = None"
  by (simp add: try_catch_def log_seek_error_def split: prod.splits option.splits)

lemma calls_upd_media [simp]: "calls (upd_media i f d) = calls d"
  by (simp add: upd_media_def split: node.splits)

lemma calls_set_currentTime: "calls (set_currentTime i t d) = calls d @ [SetCurrentTime i t]"
  by (simp add: set_currentTime_def log_call_def)

lemma calls_play: "calls (play outcome i d) = calls d @ [Play i]"
  by (cases outcome) (simp_all add: play_def log_call_def)

lemma select_chapter_frame [simp]:
  "page (select_chapter ch a) = page a" "console (select_chapter ch a) = console a"
  "reactions (select_chapter ch a) = reactions a"
  by (simp_all add: select_chapter_def set_currentChapterIndex_def Let_def)

text \<open>
  C8. No exception escapes goToChapter, whatever the seek and the play requests do. In
  the HTML5 branch (useVimeo is false, as the source sets it) with the video element
  there: after the seek one play request is made; when it fails, a warning is written and
  exactly one more play request is made, whose failure is only written to the console;
  when the seek itself throws, no play request is made and the error is written to the
  console.
\<close>

theorem goToChapter_contains_failures:
  "fst (goToChapter env ch a) = None
   \<and> (\<not> useVimeo a \<and> videoPlayerRef a = Some video \<and> seek_throws env = None \<and> reactions a = [] \<longrightarrow>
        calls (page (snd (goToChapter env ch a)))
          = calls (page a) @ [SetCurrentTime video (startTime ch), Play video]
              @ (if play_fails (first_play env) then [Play video] else [])
      \<and> console (snd (goToChapter env ch a))
          = console a @ [Log ''Seeking to chapter:'']
              @ (if play_fails (first_play env) then retry_messages (retry_play env) else []))
   \<and> (\<not> useVimeo a \<and> videoPlayerRef a = Some video \<and> seek_throws env = Some err \<and> reactions a = [] \<longrightarrow>
        calls (page (snd (goToChapter env ch a))) = calls (page a)
      \<and> console (snd (goToChapter env ch a))
          = console a @ [Log ''Seeking to chapter:'', Err ''Error seeking to chapter:''])"
proof (intro conjI impI)
  show "fst (goToChapter env ch a) = None"
    by (simp add: goToChapter_def Let_def case_prod_unfold try_catch_log_seek_error
        split: option.splits)
next
  assume h: "\<not> useVimeo a \<and> videoPlayerRef a = Some video \<and> seek_throws env = None \<and> reactions a = []"
  then show "calls (page (snd (goToChapter env ch a)))
          = calls (page a) @ [SetCurrentTime video (startTime ch), Play video]
              @ (if play_fails (first_play env) then [Play video] else [])"
    by (cases "first_play env"; cases "retry_play env")
      (simp_all add: goToChapter_def try_catch_def html5_body_def html5_play_def html5_retry_def
        log_seek_error_def console_write_def run_reactions_def calls_set_currentTime calls_play Let_def)
  from h show "console (snd (goToChapter env ch a))
          = console a @ [Log ''Seeking to chapter:'']
              @ (if play_fails (first_play env) then retry_messages (retry_play env) else [])"
    by (cases "first_play env"; cases "retry_play env")
      (simp_all add: goToChapter_def try_catch_def html5_body_def html5_play_def html5_retry_def
        log_seek_error_def console_write_def run_reactions_def Let_def)
next
  assume h: "\<not> useVimeo a \<and> videoPlayerRef a = Some video \<and> seek_throws env = Some err \<and> reactions a = []"
  then show "calls (page (snd (goToChapter env ch a))) = calls (page a)"
    by (simp add: goToChapter_def try_catch_def html5_body_def
        log_seek_error_def console_write_def run_reactions_def Let_def)
  from h show "console (snd (goToChapter env ch a))
          = console a @ [Log ''Seeking to chapter:'', Err ''Error seeking to chapter:'']"
    by (simp add: goToChapter_def try_catch_def html5_body_def
        log_seek_error_def console_write_def run_reactions_def Let_def)
qed

theorem goToChapter_contains_failures_witness:
  "\<not> useVimeo (demo_app equal_chapters)
   \<and> videoPlayerRef (demo_app equal_chapters) = Some 0
   \<and> seek_throws blocking_env = None
   \<and> reactions (demo_app equal_chapters) = []
   \<and> play_fails (first_play blocking_env)
   \<and> fst (goToChapter blocking_env (equal_chapters ! 2) (demo_app equal_chapters)) = None
   \<and> calls (page (snd (goToChapter blocking_env (equal_chapters ! 2) (demo_app equal_chapters))))
        = [SetCurrentTime 0 40, Play 0, Play 0]
   \<and> console (snd (goToChapter blocking_env (equal_chapters ! 2) (demo_app equal_chapters)))
        = [Log ''Seeking to chapter:'', Warn ''Autoplay was blocked:'', Warn ''Video play failed'']
   \<and> currentChapterIndex (snd (goToChapter blocking_env (equal_chapters ! 2) (demo_app equal_chapters))) = 2"
proof -
  let ?a = "demo_app equal_chapters"
  have h: "\<not> useVimeo ?a \<and> videoPlayerRef ?a = Some 0 \<and> seek_throws blocking_env = None
           \<and> reactions ?a = []"
    by (simp add: demo_app_def blocking_env_def)
  have f: "play_fails (first_play blocking_env)"
    by (simp add: blocking_env_def)
  note t = goToChapter_contains_failures [of blocking_env "equal_chapters ! 2" ?a 0]
  have c0: "calls (page ?a) = []" "console ?a = []"
    by (simp_all add: demo_app_def demo_page_def)
  have st: "startTime (equal_chapters ! 2) = 40"
    by (simp add: equal_chapters_eval)
  have r: "retry_messages (retry_play blocking_env)
             = [Warn ''Autoplay was blocked:'', Warn ''Video play failed'']"
    by (simp add: blocking_env_def)
  have ix: "currentChapterIndex (snd (goToChapter blocking_env (equal_chapters ! 2) ?a)) = 2"
    by (simp add: goToChapter_def try_catch_def html5_body_def html5_play_def html5_retry_def
        log_seek_error_def console_write_def run_reactions_def Let_def demo_app_def
        blocking_env_def select_chapter_def set_currentChapterIndex_def findIndex_def
        equal_chapters_eval)
  show ?thesis
    using t h f c0 st r ix by simp
qed



section \<open>Properties of a single-frame capture\<close>

subsection \<open>The store\<close>

lemma media_at_video [simp]: "video_at d i = Some v \<Longrightarrow> media_at d i = Some v"
  by (auto simp: video_at_def media_at_def split: if_splits node.splits)

lemma video_at_upd_media [simp]:
  "video_at (upd_media i f d) j = (if i = j then map_option f (video_at d j) else video_at d j)"
  by (auto simp: upd_media_def video_at_def nth_list_update split: node.splits if_splits)

lemma media_at_upd_media [simp]:
  "media_at (upd_media i f d) j = (if i = j then map_option f (media_at d j) else media_at d j)"
  by (auto simp: upd_media_def media_at_def nth_list_update split: node.splits if_splits)

lemma length_nodes_upd_media [simp]: "length (nodes (upd_media i f d)) = length (nodes d)"
  by (simp add: upd_media_def split: node.splits)

lemma nth_nodes_upd_media [simp]: "i \<noteq> j \<Longrightarrow> nodes (upd_media i f d) ! j = nodes d ! j"
  by (simp add: upd_media_def split: node.splits)

lemma log_call_simps [simp]:
  "video_at (log_call c d) j = video_at d j"
  "nodes (log_call c d) = nodes d"
  "calls (log_call c d) = calls d @ [c]"
  by (simp_all add: log_call_def video_at_def)

lemma set_currentTime_simps [simp]:
  "video_at (set_currentTime i t d) j
     = (if i = j
        then map_option (\<lambda>v. v\<lparr>currentTime := (case duration v of None \<Rightarrow> max 0 t
                                                | Some du \<Rightarrow> max 0 (min t du))\<rparr>) (video_at d j)
        else video_at d j)"
  "length (nodes (set_currentTime i t d)) = length (nodes d)"
  "i \<noteq> j \<Longrightarrow> nodes (set_currentTime i t d) ! j = nodes d ! j"
  "calls (set_currentTime i t d) = calls d @ [SetCurrentTime i t]"
  by (simp_all add: set_currentTime_def)

lemma load_src_simps [simp]:
  "video_at (load_src i url d) j
     = (if i = j
        then map_option (\<lambda>v. v\<lparr>src := url, duration := None, currentTime := 0, readyState := 0\<rparr>)
               (video_at d j)
        else video_at d j)"
  "length (nodes (load_src i url d)) = length (nodes d)"
  "i \<noteq> j \<Longrightarrow> nodes (load_src i url d) ! j = nodes d ! j"
  "calls (load_src i url d) = calls d @ [Load i url]"
  by (simp_all add: load_src_def)

subsection \<open>The primitives of a capture\<close>

lemma thumb_update_simps [simp]:
  "thumb (thumb_update f s) = map_option f (thumb s)"
  "thumbVideo (thumb_update f s) = thumbVideo s"
  "canvas (thumb_update f s) = canvas s"
  "seekTime (thumb_update f s) = seekTime s"
  "timeSeconds (thumb_update f s) = timeSeconds s"
  "resolved (thumb_update f s) = resolved s"
  "settled (thumb_update f s) = settled s"
  "timers (thumb_update f s) = timers s"
  "lastTimer (thumb_update f s) = lastTimer s"
  "timeoutId (thumb_update f s) = timeoutId s"
  "raster (thumb_update f s) = raster s"
  "cleanups (thumb_update f s) = cleanups s"
  "calls (doc (thumb_update f s)) = calls (doc s)"
  "length (nodes (doc (thumb_update f s))) = length (nodes (doc s))"
  by (simp_all add: thumb_update_def thumb_def)

lemma thumb_update_nth [simp]:
  "j \<noteq> thumbVideo s \<Longrightarrow> nodes (doc (thumb_update f s)) ! j = nodes (doc s) ! j"
  by (simp add: thumb_update_def)

lemma setTimeout_simps [simp]:
  "thumb (snd (setTimeout cb s)) = thumb s"
  "doc (snd (setTimeout cb s)) = doc s"
  "thumbVideo (snd (setTimeout cb s)) = thumbVideo s"
  "canvas (snd (setTimeout cb s)) = canvas s"
  "seekTime (snd (setTimeout cb s)) = seekTime s"
  "timeSeconds (snd (setTimeout cb s)) = timeSeconds s"
  "resolved (snd (setTimeout cb s)) = resolved s"
  "settled (snd (setTimeout cb s)) = settled s"
  "timers (snd (setTimeout cb s)) = timers s @ [(Suc (lastTimer s), cb)]"
  "lastTimer (snd (setTimeout cb s)) = Suc (lastTimer s)"
  "timeoutId (snd (setTimeout cb s)) = timeoutId s"
  "raster (snd (setTimeout cb s)) = raster s"
  "cleanups (snd (setTimeout cb s)) = cleanups s"
  by (simp_all add: setTimeout_def thumb_def Let_def)

lemma clearTimeout_simps [simp]:
  "thumb (clearTimeout tid s) = thumb s"
  "doc (clearTimeout tid s) = doc s"
  "thumbVideo (clearTimeout tid s) = thumbVideo s"
  "canvas (clearTimeout tid s) = canvas s"
  "seekTime (clearTimeout tid s) = seekTime s"
  "timeSeconds (clearTimeout tid s) = timeSeconds s"
  "resolved (clearTimeout tid s) = resolved s"
  "settled (clearTimeout tid s) = settled s"
  "timers (clearTimeout tid s) = filter (\<lambda>(i, cb). i \<noteq> tid) (timers s)"
  "lastTimer (clearTimeout tid s) = lastTimer s"
  "timeoutId (clearTimeout tid s) = timeoutId s"
  "raster (clearTimeout tid s) = raster s"
  "cleanups (clearTimeout tid s) = cleanups s"
  by (simp_all add: clearTimeout_def thumb_def)

lemma drawImage_simps [simp]:
  "thumb (drawImage s) = thumb s"
  "nodes (doc (drawImage s)) = nodes (doc s)"
  "calls (doc (drawImage s)) = calls (doc s) @ [DrawImage (canvas s) (thumbVideo s)]"
  "thumbVideo (drawImage s) = thumbVideo s"
  "canvas (drawImage s) = canvas s"
  "seekTime (drawImage s) = seekTime s"
  "timeSeconds (drawImage s) = timeSeconds s"
  "resolved (drawImage s) = resolved s"
  "settled (drawImage s) = settled s"
  "timers (drawImage s) = timers s"
  "lastTimer (drawImage s) = lastTimer s"
  "timeoutId (drawImage s) = timeoutId s"
  "raster (drawImage s) = raster s"
  "cleanups (drawImage s) = cleanups s"
  by (simp_all add: drawImage_def thumb_def)

lemma request_seek_simps [simp]:
  "thumb (request_seek x s)
     = map_option (\<lambda>v. v\<lparr>currentTime := (case duration v of None \<Rightarrow> max 0 x
                                                | Some du \<Rightarrow> max 0 (min x du))\<rparr>) (thumb s)"
  "calls (doc (request_seek x s)) = calls (doc s) @ [SetCurrentTime (thumbVideo s) x]"
  "length (nodes (doc (request_seek x s))) = length (nodes (doc s))"
  "thumbVideo (request_seek x s) = thumbVideo s"
  "canvas (request_seek x s) = canvas s"
  "seekTime (request_seek x s) = seekTime s"
  "timeSeconds (request_seek x s) = timeSeconds s"
  "resolved (request_seek x s) = resolved s"
  "settled (request_seek x s) = settled s"
  "timers (request_seek x s) = timers s"
  "lastTimer (request_seek x s) = lastTimer s"
  "timeoutId (request_seek x s) = timeoutId s"
  "raster (request_seek x s) = raster s"
  "cleanups (request_seek x s) = cleanups s"
  by (simp_all add: request_seek_def thumb_def)

lemma request_seek_nth [simp]:
  "j \<noteq> thumbVideo s \<Longrightarrow> nodes (doc (request_seek x s)) ! j = nodes (doc s) ! j"
  by (simp add: request_seek_def)

lemma settle_simps [simp]:
  "thumb (resolve_promise u s) = thumb s" "thumb (reject_promise e s) = thumb s"
  "doc (resolve_promise u s) = doc s" "doc (reject_promise e s) = doc s"
  "thumbVideo (resolve_promise u s) = thumbVideo s" "thumbVideo (reject_promise e s) = thumbVideo s"
  "canvas (resolve_promise u s) = canvas s" "canvas (reject_promise e s) = canvas s"
  "seekTime (resolve_promise u s) = seekTime s" "seekTime (reject_promise e s) = seekTime s"
  "timeSeconds (resolve_promise u s) = timeSeconds s" "timeSeconds (reject_promise e s) = timeSeconds s"
  "resolved (resolve_promise u s) = resolved s" "resolved (reject_promise e s) = resolved s"
  "timers (resolve_promise u s) = timers s" "timers (reject_promise e s) = timers s"
  "lastTimer (resolve_promise u s) = lastTimer s" "lastTimer (reject_promise e s) = lastTimer s"
  "timeoutId (resolve_promise u s) = timeoutId s" "timeoutId (reject_promise e s) = timeoutId s"
  "raster (resolve_promise u s) = raster s" "raster (reject_promise e s) = raster s"
  "cleanups (resolve_promise u s) = cleanups s" "cleanups (reject_promise e s) = cleanups s"
  "settled (resolve_promise u s) = (if settled s = None then Some (Inr u) else settled s)"
  "settled (reject_promise e s) = (if settled s = None then Some (Inl e) else settled s)"
  by (simp_all add: resolve_promise_def reject_promise_def thumb_def)

lemma thumb_resolved_update [simp]: "thumb (s\<lparr>resolved := b\<rparr>) = thumb s"
  by (simp add: thumb_def)

lemma thumb_raster_update [simp]: "thumb (s\<lparr>raster := r\<rparr>) = thumb s"
  by (simp add: thumb_def)

lemma el_cleanup_simps [simp]:
  "thumb (el_cleanup s) = map_option el_released (thumb s)"
  "thumbVideo (el_cleanup s) = thumbVideo s"
  "canvas (el_cleanup s) = canvas s"
  "seekTime (el_cleanup s) = seekTime s"
  "timeSeconds (el_cleanup s) = timeSeconds s"
  "resolved (el_cleanup s) = resolved s"
  "settled (el_cleanup s) = settled s"
  "timers (el_cleanup s)
     = (case timeoutId s of
          Some tid \<Rightarrow> if tid \<noteq> 0 then filter (\<lambda>(i, cb). i \<noteq> tid) (timers s) else timers s
        | None \<Rightarrow> timers s)"
  "lastTimer (el_cleanup s) = lastTimer s"
  "timeoutId (el_cleanup s) = timeoutId s"
  "raster (el_cleanup s) = raster s"
  "cleanups (el_cleanup s) = Suc (cleanups s)"
  "calls (doc (el_cleanup s)) = calls (doc s) @ [Load (thumbVideo s) []]"
  "length (nodes (doc (el_cleanup s))) = length (nodes (doc s))"
  by (simp_all add: el_cleanup_def Let_def thumb_def thumb_update_def el_released_def [abs_def]
      option.map_comp comp_def split: option.splits)

lemma el_cleanup_nth [simp]:
  "j \<noteq> thumbVideo s \<Longrightarrow> nodes (doc (el_cleanup s)) ! j = nodes (doc s) ! j"
  by (simp add: el_cleanup_def Let_def thumb_update_def split: option.splits)

lemma url_cleanup_simps [simp]:
  "thumb (url_cleanup s) = map_option url_released (thumb s)"
  "thumbVideo (url_cleanup s) = thumbVideo s"
  "canvas (url_cleanup s) = canvas s"
  "seekTime (url_cleanup s) = seekTime s"
  "timeSeconds (url_cleanup s) = timeSeconds s"
  "resolved (url_cleanup s) = resolved s"
  "settled (url_cleanup s) = settled s"
  "timers (url_cleanup s) = timers s"
  "lastTimer (url_cleanup s) = lastTimer s"
  "timeoutId (url_cleanup s) = timeoutId s"
  "raster (url_cleanup s) = raster s"
  "cleanups (url_cleanup s) = Suc (cleanups s)"
  "calls (doc (url_cleanup s)) = calls (doc s) @ [Load (thumbVideo s) []]"
  "length (nodes (doc (url_cleanup s))) = length (nodes (doc s))"
  by (simp_all add: url_cleanup_def Let_def thumb_def thumb_update_def url_released_def [abs_def]
      option.map_comp comp_def split: option.splits)

lemma url_cleanup_nth [simp]:
  "j \<noteq> thumbVideo s \<Longrightarrow> nodes (doc (url_cleanup s)) ! j = nodes (doc s) ! j"
  by (simp add: url_cleanup_def Let_def thumb_update_def)

lemma map_of_filter_fst:
  "map_of (filter (\<lambda>(i, cb). i \<noteq> tid) ts) k = (if k = tid then None else map_of ts k)"
  by (induction ts) auto

lemma own_listeners_removed:
  assumes "own_listeners v"
  shows "listeners (el_released v) = []" and "listeners (url_released v) = []"
proof -
  have *: "h = handler_of e" if "(e, h, once) \<in> set (listeners v)" for e h once
    using assms that by (auto simp: own_listeners_def list_all_iff)
  have **: "(e = Seeked \<and> h = H_onSeeked) \<or> (e = ErrorEvent \<and> h = H_onError) \<or>
            (e = LoadedMetadata \<and> h = H_onLoadedMetadata) \<or> (e = CanPlay \<and> h = H_onCanPlay)"
    if "(e, h, once) \<in> set (listeners v)" for e h once
    using * [OF that] by (cases e) auto
  show "listeners (el_released v) = []"
    using ** by (fastforce simp: el_released_def removeEventListener_def filter_empty_conv)
  show "listeners (url_released v) = []"
    using ** by (fastforce simp: url_released_def removeEventListener_def filter_empty_conv)
qed

lemma own_listeners_released [simp]:
  "own_listeners v \<Longrightarrow> own_listeners (el_released v)"
  "own_listeners v \<Longrightarrow> own_listeners (url_released v)"
  using own_listeners_removed [of v] by (simp_all add: own_listeners_def)

lemma own_listeners_removeEventListener [simp]:
  "own_listeners v \<Longrightarrow> own_listeners (removeEventListener e h v)"
  by (auto simp: own_listeners_def removeEventListener_def list_all_iff)

lemma own_listeners_decoder [simp]:
  "own_listeners (v\<lparr>readyState := rs, duration := du\<rparr>) = own_listeners v"
  "own_listeners (v\<lparr>currentTime := t\<rparr>) = own_listeners v"
  by (simp_all add: own_listeners_def)

text \<open>The end of a capture: \<open>resolved = true; cleanup(); resolve or reject\<close>.\<close>

lemma el_end_inv:
  assumes "capture_inv True s" and "\<not> resolved s"
  shows "capture_inv True (reject_promise err (el_cleanup (s\<lparr>resolved := True\<rparr>)))"
    and "capture_inv True (resolve_promise u (el_cleanup (s\<lparr>resolved := True\<rparr>)))"
  using assms
  by (auto simp: capture_inv_def timers_ok_def map_of_filter_fst own_listeners_removed
      list_all_iff distinct_map_filter split: option.splits)

lemma url_end_inv:
  assumes "capture_inv False s" and "\<not> resolved s"
  shows "capture_inv False (reject_promise err (url_cleanup (s\<lparr>resolved := True\<rparr>)))"
    and "capture_inv False (resolve_promise u (url_cleanup (s\<lparr>resolved := True\<rparr>)))"
  using assms
  by (auto simp: capture_inv_def timers_ok_def own_listeners_removed split: option.splits)

lemma setTimeout_inv:
  assumes "capture_inv c s" and "cb \<noteq> Timeout_cb"
  shows "capture_inv c (snd (setTimeout cb s))"
  using assms
  by (auto simp: capture_inv_def timers_ok_def list_all_iff map_add_def split: option.splits)

lemma setTimeout_pending:
  "timeout_pending s \<Longrightarrow> timeout_pending (snd (setTimeout cb s))"
  by (auto simp: timeout_pending_def map_add_def split: option.splits)

lemma capture_liveI:
  "capture_inv c s \<Longrightarrow> resolved s \<Longrightarrow> capture_live c s"
  by (simp add: capture_live_def)

lemma thumb_doc_update [simp]: "thumb (s\<lparr>doc := d\<rparr>) = video_at d (thumbVideo s)"
  by (simp add: thumb_def)

lemma drawImage_inv [simp]:
  "capture_inv c (drawImage s) = capture_inv c s"
  "timeout_pending (drawImage s) = timeout_pending s"
  by (simp_all add: capture_inv_def timers_ok_def timeout_pending_def cong: option.case_cong)

lemma end_resolved [simp]:
  "resolved (reject_promise err (el_cleanup (s\<lparr>resolved := True\<rparr>)))"
  "resolved (resolve_promise u (el_cleanup (s\<lparr>resolved := True\<rparr>)))"
  "resolved (reject_promise err (url_cleanup (s\<lparr>resolved := True\<rparr>)))"
  "resolved (resolve_promise u (url_cleanup (s\<lparr>resolved := True\<rparr>)))"
  by simp_all

lemma el_end_live:
  assumes "capture_inv True s" and "\<not> resolved s"
  shows "capture_live True (reject_promise err (el_cleanup (s\<lparr>resolved := True\<rparr>)))"
    and "capture_live True (resolve_promise u (el_cleanup (s\<lparr>resolved := True\<rparr>)))"
  using el_end_inv [OF assms] by (simp_all add: capture_liveI)

lemma url_end_live:
  assumes "capture_inv False s" and "\<not> resolved s"
  shows "capture_live False (reject_promise err (url_cleanup (s\<lparr>resolved := True\<rparr>)))"
    and "capture_live False (resolve_promise u (url_cleanup (s\<lparr>resolved := True\<rparr>)))"
  using url_end_inv [OF assms] by (simp_all add: capture_liveI)

lemma el_readFrame_live:
  assumes "capture_inv True s" and "\<not> resolved s"
  shows "capture_live True (el_readFrame s)"
  using assms el_end_live [of "drawImage s"]
  by (simp add: el_readFrame_def Let_def split: sum.splits)

lemma setTimeout_live:
  assumes "capture_live c s" and "cb \<noteq> Timeout_cb"
  shows "capture_live c (snd (setTimeout cb s))"
  using assms setTimeout_inv [of c s cb] setTimeout_pending [of s cb]
  by (simp add: capture_live_def)

lemma el_captureFrame_live: "capture_live True s \<Longrightarrow> capture_live True (el_captureFrame s)"
  using el_readFrame_live [of s] setTimeout_live [of True s CaptureRetry_cb]
  by (auto simp: el_captureFrame_def capture_live_def split: option.splits)

lemma el_captureRetry_live: "capture_live True s \<Longrightarrow> capture_live True (el_captureRetry s)"
  using el_readFrame_live [of s] el_end_live [of s]
  by (auto simp: el_captureRetry_def capture_live_def split: option.splits)

lemma seek_live: "capture_live c s \<Longrightarrow> capture_live c (request_seek x s)"
  by (auto simp: capture_live_def capture_inv_def timers_ok_def timeout_pending_def
      own_listeners_def split: option.splits)

lemma el_requestSeek_live: "capture_live True s \<Longrightarrow> capture_live True (el_requestSeek s)"
  using seek_live [of True s] by (auto simp: el_requestSeek_def split: option.splits)

lemma url_requestSeek_live: "capture_live False s \<Longrightarrow> capture_live False (url_requestSeek s)"
  using seek_live [of False s] by (auto simp: url_requestSeek_def split: option.splits)

lemma el_onTimeout_live: "capture_inv True s \<Longrightarrow> capture_live True (el_onTimeout s)"
  using el_end_live [of s] by (auto simp: el_onTimeout_def capture_liveI)

lemma el_onError_live: "capture_live True s \<Longrightarrow> capture_live True (el_onError s)"
  using el_end_live [of s] by (auto simp: el_onError_def capture_live_def)

lemma el_handler_live: "capture_live True s \<Longrightarrow> capture_live True (el_handler h s)"
  using el_onError_live [of s] el_requestSeek_live [of s]
    setTimeout_live [of True s MetadataDelay_cb] setTimeout_live [of True s SeekedDelay_cb]
  by (cases h)
    (auto simp: el_onSeeked_def el_onLoadedMetadata_def el_onCanPlay_def split: option.splits)

lemma el_timer_live:
  "capture_live True s \<Longrightarrow> cb \<noteq> Timeout_cb \<Longrightarrow> capture_live True (el_timer cb s)"
  using el_requestSeek_live [of s] el_captureFrame_live [of s] el_captureRetry_live [of s]
  by (cases cb) (auto simp: el_metadataDelay_def el_seekedDelay_def split: option.splits)

lemma thumb_update_live:
  assumes "capture_live c s" and "\<And>v. own_listeners v \<Longrightarrow> own_listeners (f v)"
    and "\<And>v. listeners v = [] \<Longrightarrow> listeners (f v) = []"
  shows "capture_live c (thumb_update f s)"
  using assms
  by (auto simp: capture_live_def capture_inv_def timers_ok_def timeout_pending_def
      split: option.splits)

lemma dispatch_live:
  assumes "capture_live c s" and "\<And>h s. capture_live c s \<Longrightarrow> capture_live c (run h s)"
  shows "capture_live c (dispatch run e s)"
proof -
  have "capture_live c (thumb_update (removeEventListener e h) s)" for h
    using assms(1)
    by (rule thumb_update_live) (auto simp: removeEventListener_def own_listeners_def list_all_iff)
  then show ?thesis
    using assms by (auto simp: dispatch_def split: option.splits)
qed

lemma clearTimeout_inv: "capture_inv c s \<Longrightarrow> capture_inv c (clearTimeout tid s)"
  by (auto simp: capture_inv_def timers_ok_def map_of_filter_fst list_all_iff distinct_map_filter
      split: option.splits)

lemma clearTimeout_pending:
  "timeout_pending s \<Longrightarrow> tid \<noteq> 1 \<Longrightarrow> timeout_pending (clearTimeout tid s)"
  by (simp add: timeout_pending_def map_of_filter_fst)

lemma timer_kind:
  assumes "capture_inv c s" and "map_of (timers s) tid = Some cb"
  shows "(cb = Timeout_cb) = (tid = 1)"
proof -
  have "(tid, cb) \<in> set (timers s)" using assms(2) by (rule map_of_SomeD)
  then show ?thesis using assms(1) by (auto simp: capture_inv_def timers_ok_def list_all_iff)
qed

lemma el_fire_timer_live:
  assumes "capture_live True s"
  shows "capture_live True (fire_timer el_timer tid s)"
proof (cases "map_of (timers s) tid")
  case None
  then show ?thesis using assms by (simp add: fire_timer_def)
next
  case (Some cb)
  have inv0: "capture_inv True s"
    using assms by (simp add: capture_live_def)
  have inv: "capture_inv True (clearTimeout tid s)"
    using inv0 by (rule clearTimeout_inv)
  show ?thesis
  proof (cases "tid = 1")
    case True
    then have "cb = Timeout_cb" using timer_kind [OF inv0 Some] by simp
    then show ?thesis using Some inv by (simp add: fire_timer_def el_onTimeout_live)
  next
    case False
    then have cb: "cb \<noteq> Timeout_cb" using timer_kind [OF inv0 Some] by simp
    have "capture_live True (clearTimeout tid s)"
      using inv assms False by (simp add: capture_live_def clearTimeout_pending)
    then show ?thesis using Some cb by (simp add: fire_timer_def el_timer_live)
  qed
qed

lemma decoder_live:
  "capture_live c s \<Longrightarrow> capture_live c (thumb_update (\<lambda>v. v\<lparr>readyState := rs, duration := du\<rparr>) s)"
  by (rule thumb_update_live) simp_all

lemma raster_live: "capture_live c s \<Longrightarrow> capture_live c (s\<lparr>raster := r\<rparr>)"
  by (auto simp: capture_live_def capture_inv_def timers_ok_def timeout_pending_def
      split: option.splits)

lemma el_step_live: "capture_live True s \<Longrightarrow> capture_live True (el_step ev s)"
  by (cases ev)
    (simp_all add: el_step_def env_step_def dispatch_live el_handler_live el_fire_timer_live
      decoder_live raster_live)

lemma el_run_live: "capture_live True s \<Longrightarrow> capture_live True (el_run evs s)"
  by (induction evs arbitrary: s) (simp_all add: el_run_def el_step_live)

lemma createElement_simps [simp]:
  "fst (createElement tag d) = length (nodes d)"
  "length (nodes (snd (createElement tag d))) = Suc (length (nodes d))"
  "calls (snd (createElement tag d)) = calls d @ [CreateElement tag (length (nodes d))]"
  "j < length (nodes d) \<Longrightarrow> nodes (snd (createElement tag d)) ! j = nodes d ! j"
  "video_at (snd (createElement tag d)) j
     = (if j = length (nodes d) then (if tag = ''video'' then Some new_video else None)
        else video_at d j)"
  by (auto simp: createElement_def Let_def video_at_def nth_append)

lemma set_canvas_size_simps [simp]:
  "video_at (set_canvas_size i w h d) j = video_at d j"
  "length (nodes (set_canvas_size i w h d)) = length (nodes d)"
  "calls (set_canvas_size i w h d) = calls d"
  "i \<noteq> j \<Longrightarrow> nodes (set_canvas_size i w h d) ! j = nodes d ! j"
  by (auto simp: set_canvas_size_def video_at_def nth_list_update split: node.splits if_splits)

lemma el_executor_invalid:
  "video_at d el = None \<Longrightarrow> el_executor d el t w h = Inl (Error ''Invalid video element provided'')"
  by (simp add: el_executor_def)

lemma el_executor_Inr:
  assumes "video_at d el = Some ve"
  shows "\<exists>s0. el_executor d el t w h = Inr s0
    \<and> thumbVideo s0 = length (nodes d) \<and> canvas s0 = Suc (length (nodes d))
    \<and> thumb s0 = Some (el_fresh (if src ve \<noteq> [] then src ve else currentSrc ve))
    \<and> seekTime s0 = el_seekTime0 (duration ve) t \<and> timeSeconds s0 = t
    \<and> raster s0 = Inr ''data:image/jpeg;base64''
    \<and> timers s0 = [(1, Timeout_cb)] \<and> lastTimer s0 = 1 \<and> timeoutId s0 = Some 1
    \<and> \<not> resolved s0 \<and> settled s0 = None \<and> cleanups s0 = 0
    \<and> length (nodes (doc s0)) = length (nodes d) + 2
    \<and> (\<forall>j < length (nodes d). nodes (doc s0) ! j = nodes d ! j)
    \<and> calls (doc s0) = calls d @ [CreateElement ''video'' (length (nodes d)),
          CreateElement ''canvas'' (Suc (length (nodes d))),
          Load (length (nodes d)) (if src ve \<noteq> [] then src ve else currentSrc ve)]"
  using assms
  by (simp add: el_executor_def Let_def case_prod_unfold thumb_def thumb_update_def
      setTimeout_def el_fresh_def el_seekTime0_def addEventListener_def new_video_def
      cong: if_cong)

lemma el_executor_live:
  assumes "el_executor d el t w h = Inr s0"
  shows "capture_live True s0"
proof -
  obtain ve where ve: "video_at d el = Some ve"
    using assms by (cases "video_at d el") (simp_all add: el_executor_invalid)
  from el_executor_Inr [OF ve, of t w h] assms show ?thesis
    by (auto simp: capture_live_def capture_inv_def timers_ok_def timeout_pending_def
        own_listeners_def el_fresh_def)
qed

lemma el_finish_settles:
  assumes "capture_live True s"
  shows "settled (el_finish s) \<noteq> None \<and> capture_live True (el_finish s)"
proof (cases "settled s = None")
  case False
  then show ?thesis using assms by (auto simp: el_finish_def)
next
  case True
  then have nr: "\<not> resolved s" and tp: "map_of (timers s) 1 = Some Timeout_cb"
    and tid: "timeoutId s = Some 1" and inv: "capture_inv True s"
    using assms by (auto simp: capture_live_def capture_inv_def timeout_pending_def)
  have fin: "el_finish s = el_onTimeout (clearTimeout 1 s)"
    using True tid tp by (simp add: el_finish_def el_step_def env_step_def fire_timer_def)
  have "capture_live True (el_finish s)"
    unfolding fin using inv by (intro el_onTimeout_live clearTimeout_inv)
  moreover have "settled (el_finish s) \<noteq> None"
    unfolding fin using nr True by (simp add: el_onTimeout_def)
  ultimately show ?thesis by simp
qed

lemma captureVideoFrameFromElement_settles:
  "\<exists>outcome. snd (captureVideoFrameFromElement d el t w h evs) = Some outcome"
proof (cases "el_executor d el t w h")
  case (Inl err)
  then show ?thesis by (simp add: captureVideoFrameFromElement_def)
next
  case (Inr s0)
  from el_finish_settles [OF el_run_live [OF el_executor_live [OF Inr], of evs]]
  show ?thesis using Inr by (auto simp: captureVideoFrameFromElement_def Let_def)
qed

subsection \<open>captureVideoFrame\<close>

lemma url_onTimeout_live: "capture_inv False s \<Longrightarrow> capture_live False (url_onTimeout s)"
  using url_end_live [of s] by (auto simp: url_onTimeout_def capture_liveI)

lemma url_onError_live: "capture_live False s \<Longrightarrow> capture_live False (url_onError s)"
  using url_end_live [of s] by (auto simp: url_onError_def capture_live_def)

lemma url_onSeeked_live: "capture_live False s \<Longrightarrow> capture_live False (url_onSeeked s)"
  using url_end_live [of "drawImage s"] setTimeout_live [of False s CaptureRetry_cb]
  by (auto simp: url_onSeeked_def Let_def capture_live_def split: option.splits sum.splits)

lemma drawImage_live: "capture_live c s \<Longrightarrow> capture_live c (drawImage s)"
  by (simp add: capture_live_def)

lemma url_captureRetry_live: "capture_live False s \<Longrightarrow> capture_live False (url_captureRetry s)"
  using url_end_live [of "drawImage s"] drawImage_live [of False s]
  by (auto simp: url_captureRetry_def Let_def capture_live_def split: option.splits sum.splits)

lemma url_handler_live: "capture_live False s \<Longrightarrow> capture_live False (url_handler h s)"
  using url_onError_live [of s] url_requestSeek_live [of s] url_onSeeked_live [of s]
  by (cases h) (auto simp: url_onLoadedMetadata_def url_onCanPlay_def split: option.splits)

lemma url_timer_live:
  "capture_live False s \<Longrightarrow> cb \<noteq> Timeout_cb \<Longrightarrow> capture_live False (url_timer cb s)"
  using url_captureRetry_live [of s] by (cases cb) auto

lemma url_fire_timer_live:
  assumes "capture_live False s"
  shows "capture_live False (fire_timer url_timer tid s)"
proof (cases "map_of (timers s) tid")
  case None
  then show ?thesis using assms by (simp add: fire_timer_def)
next
  case (Some cb)
  have inv0: "capture_inv False s"
    using assms by (simp add: capture_live_def)
  have inv: "capture_inv False (clearTimeout tid s)"
    using inv0 by (rule clearTimeout_inv)
  show ?thesis
  proof (cases "tid = 1")
    case True
    then have "cb = Timeout_cb" using timer_kind [OF inv0 Some] by simp
    then show ?thesis using Some inv by (simp add: fire_timer_def url_onTimeout_live)
  next
    case False
    then have cb: "cb \<noteq> Timeout_cb" using timer_kind [OF inv0 Some] by simp
    have "capture_live False (clearTimeout tid s)"
      using inv assms False by (simp add: capture_live_def clearTimeout_pending)
    then show ?thesis using Some cb by (simp add: fire_timer_def url_timer_live)
  qed
qed

lemma url_step_live: "capture_live False s \<Longrightarrow> capture_live False (url_step ev s)"
  by (cases ev)
    (simp_all add: url_step_def env_step_def dispatch_live url_handler_live url_fire_timer_live
      decoder_live raster_live)

lemma url_run_live: "capture_live False s \<Longrightarrow> capture_live False (url_run evs s)"
  by (induction evs arbitrary: s) (simp_all add: url_run_def url_step_live)

lemma url_executor_state:
  "thumbVideo (url_executor d videoUrl t w h) = length (nodes d)"
  "canvas (url_executor d videoUrl t w h) = Suc (length (nodes d))"
  "thumb (url_executor d videoUrl t w h) = Some (url_fresh videoUrl)"
  "timeSeconds (url_executor d videoUrl t w h) = t"
  "raster (url_executor d videoUrl t w h) = Inr ''data:image/jpeg;base64''"
  "timers (url_executor d videoUrl t w h) = [(1, Timeout_cb)]"
  "lastTimer (url_executor d videoUrl t w h) = 1"
  "\<not> resolved (url_executor d videoUrl t w h)"
  "settled (url_executor d videoUrl t w h) = None"
  "cleanups (url_executor d videoUrl t w h) = 0"
  "length (nodes (doc (url_executor d videoUrl t w h))) = length (nodes d) + 2"
  "j < length (nodes d) \<Longrightarrow> nodes (doc (url_executor d videoUrl t w h)) ! j = nodes d ! j"
  "calls (doc (url_executor d videoUrl t w h))
     = calls d @ [CreateElement ''video'' (length (nodes d)),
                  CreateElement ''canvas'' (Suc (length (nodes d))),
                  Load (length (nodes d)) videoUrl]"
  by (simp_all add: url_executor_def Let_def case_prod_unfold thumb_def thumb_update_def
      setTimeout_def url_fresh_def addEventListener_def new_video_def)

lemma url_executor_live: "capture_live False (url_executor d videoUrl t w h)"
  by (auto simp: capture_live_def capture_inv_def timers_ok_def timeout_pending_def
      own_listeners_def url_fresh_def url_executor_state)

lemma url_finish_settles:
  assumes "capture_live False s"
  shows "settled (url_finish s) \<noteq> None \<and> capture_live False (url_finish s)"
proof (cases "settled s = None")
  case False
  then show ?thesis using assms by (auto simp: url_finish_def)
next
  case True
  then have nr: "\<not> resolved s" and tp: "map_of (timers s) 1 = Some Timeout_cb"
    and inv: "capture_inv False s"
    using assms by (auto simp: capture_live_def capture_inv_def timeout_pending_def)
  have fin: "url_finish s = url_onTimeout (clearTimeout 1 s)"
    using True tp by (simp add: url_finish_def url_step_def env_step_def fire_timer_def)
  have "capture_live False (url_finish s)"
    unfolding fin using inv by (intro url_onTimeout_live clearTimeout_inv)
  moreover have "settled (url_finish s) \<noteq> None"
    unfolding fin using nr True by (simp add: url_onTimeout_def)
  ultimately show ?thesis by simp
qed

lemma captureVideoFrame_settles:
  "\<exists>outcome. snd (captureVideoFrame d videoUrl t w h evs) = Some outcome"
  using url_finish_settles [OF url_run_live [OF url_executor_live], of evs d videoUrl t w h]
  by (auto simp: captureVideoFrame_def Let_def)

lemma released_duration [simp]:
  "duration (el_released v) = None" "duration (url_released v) = None"
  by (simp_all add: el_released_def url_released_def removeEventListener_def)

lemma step_frame_refl [simp]: "step_frame f D s s"
  by (simp add: step_frame_def split: option.splits)

lemma step_frame_pre:
  assumes "step_frame f D s1 s'"
    and "thumbVideo s1 = thumbVideo s" "canvas s1 = canvas s" "seekTime s1 = seekTime s"
    and "timeSeconds s1 = timeSeconds s" "calls (doc s1) = calls (doc s)"
    and "length (nodes (doc s1)) = length (nodes (doc s))"
    and "\<And>j. j \<noteq> thumbVideo s \<Longrightarrow> nodes (doc s1) ! j = nodes (doc s) ! j"
    and "map_option duration (thumb s1) = map_option duration (thumb s)"
  shows "step_frame f D s s'"
proof -
  have "new_call f s1 = new_call f s"
    using assms(2-5,9)
    by (cases "thumb s1"; cases "thumb s")
      (auto simp: new_call_def fun_eq_iff split: dom_call.splits option.splits)
  moreover have "(case thumb s' of None \<Rightarrow> True
       | Some v' \<Rightarrow> duration v' = None \<or> D (duration v') \<or>
           (case thumb s of None \<Rightarrow> False | Some v \<Rightarrow> duration v' = duration v))"
    using assms(1,9)
    by (cases "thumb s1"; cases "thumb s") (auto simp: step_frame_def split: option.splits)
  ultimately show ?thesis
    using assms(1-8) by (simp add: step_frame_def)
qed

lemma nodes_doc_update_frame [simp]:
  "nodes (doc (s\<lparr>resolved := b\<rparr>)) = nodes (doc s)"
  by simp

lemma seek_nodes [simp]:
  "length (nodes (set_currentTime i x d)) = length (nodes d)"
  by simp

lemma end_frame:
  "step_frame f D s (reject_promise err (el_cleanup (s\<lparr>resolved := True\<rparr>)))"
  "step_frame f D s (resolve_promise u (el_cleanup (s\<lparr>resolved := True\<rparr>)))"
  "step_frame f D s (reject_promise err (url_cleanup (s\<lparr>resolved := True\<rparr>)))"
  "step_frame f D s (resolve_promise u (url_cleanup (s\<lparr>resolved := True\<rparr>)))"
  by (auto simp: step_frame_def new_call_def split: option.splits)

lemma read_end_frame:
  "step_frame f D s (reject_promise err (el_cleanup (drawImage s\<lparr>resolved := True\<rparr>)))"
  "step_frame f D s (resolve_promise u (el_cleanup (drawImage s\<lparr>resolved := True\<rparr>)))"
  "step_frame f D s (reject_promise err (url_cleanup (drawImage s\<lparr>resolved := True\<rparr>)))"
  "step_frame f D s (resolve_promise u (url_cleanup (drawImage s\<lparr>resolved := True\<rparr>)))"
  "step_frame f D s (drawImage s)"
  by (auto simp: step_frame_def new_call_def split: option.splits)

lemma setTimeout_frame: "step_frame f D s (snd (setTimeout cb s))"
  by (simp add: step_frame_def split: option.splits)

lemma el_readFrame_frame: "step_frame f D s (el_readFrame s)"
  by (simp add: el_readFrame_def Let_def read_end_frame split: sum.splits)

lemma el_captureFrame_frame: "step_frame f D s (el_captureFrame s)"
  by (simp add: el_captureFrame_def el_readFrame_frame setTimeout_frame split: option.splits)

lemma el_captureRetry_frame: "step_frame f D s (el_captureRetry s)"
  by (simp add: el_captureRetry_def el_readFrame_frame end_frame split: option.splits)

lemma el_requestSeek_frame: "step_frame el_f D s (el_requestSeek s)"
  by (auto simp: el_requestSeek_def step_frame_def new_call_def split: option.splits)

lemma url_requestSeek_frame: "step_frame url_f D s (url_requestSeek s)"
  by (auto simp: url_requestSeek_def step_frame_def new_call_def split: option.splits)

lemma el_handler_frame: "step_frame el_f D s (el_handler h s)"
  by (cases h)
    (simp_all add: el_onSeeked_def el_onError_def el_onLoadedMetadata_def el_onCanPlay_def
      setTimeout_frame end_frame el_requestSeek_frame split: option.splits)

lemma el_timer_frame: "step_frame el_f D s (el_timer cb s)"
  by (cases cb)
    (simp_all add: el_onTimeout_def el_metadataDelay_def el_seekedDelay_def end_frame
      el_requestSeek_frame el_captureFrame_frame el_captureRetry_frame split: option.splits)

lemma url_handler_frame: "step_frame url_f D s (url_handler h s)"
  by (cases h)
    (simp_all add: url_onSeeked_def url_onError_def url_onLoadedMetadata_def url_onCanPlay_def
      setTimeout_frame end_frame read_end_frame url_requestSeek_frame Let_def
      split: option.splits sum.splits)

lemma url_timer_frame: "step_frame url_f D s (url_timer cb s)"
  by (cases cb)
    (simp_all add: url_onTimeout_def url_captureRetry_def end_frame read_end_frame Let_def
      split: option.splits sum.splits)

lemma dispatch_frame:
  assumes "\<And>h s. step_frame f D s (run h s)"
  shows "step_frame f D s (dispatch run e s)"
proof -
  have "step_frame f D s (run h (thumb_update (removeEventListener e h) s))" for h
    by (rule step_frame_pre [OF assms])
      (simp_all add: option.map_comp comp_def removeEventListener_def)
  then show ?thesis
    using assms by (simp add: dispatch_def split: option.splits)
qed

lemma fire_timer_frame:
  assumes "\<And>cb s. step_frame f D s (run cb s)"
  shows "step_frame f D s (fire_timer run tid s)"
proof -
  have "step_frame f D s (run cb (clearTimeout tid s))" for cb
    by (rule step_frame_pre [OF assms]) simp_all
  then show ?thesis
    by (simp add: fire_timer_def split: option.splits)
qed

lemma env_frame:
  "D du \<Longrightarrow> step_frame f D s (thumb_update (\<lambda>v. v\<lparr>readyState := rs, duration := du\<rparr>) s)"
  "step_frame f D s (s\<lparr>raster := r\<rparr>)"
  by (auto simp: step_frame_def split: option.splits)

lemma el_step_frame: "reports D ev \<Longrightarrow> step_frame el_f D s (el_step ev s)"
  by (cases ev)
    (simp_all add: el_step_def env_step_def dispatch_frame fire_timer_frame el_handler_frame
      el_timer_frame env_frame reports_def)

lemma url_step_frame: "reports D ev \<Longrightarrow> step_frame url_f D s (url_step ev s)"
  by (cases ev)
    (simp_all add: url_step_def env_step_def dispatch_frame fire_timer_frame url_handler_frame
      url_timer_frame env_frame reports_def)

lemma run_frame_refl: "run_frame P D s s"
  by (simp add: run_frame_def split: option.splits)

lemma new_call_internal:
  assumes "new_call f s1 c"
    and "thumbVideo s1 = tv" "canvas s1 = cv"
    and "\<And>v d. thumb s1 = Some v \<Longrightarrow> duration v = Some d \<Longrightarrow> P (f (seekTime s1) (timeSeconds s1) d)"
  shows "internal_call P tv cv c"
  using assms by (cases c) (auto simp: new_call_def split: option.splits)

lemma run_frame_step:
  assumes run: "run_frame P D s s1" and step: "step_frame f D s1 s2"
    and ok: "\<And>d. D (Some d) \<or> (\<exists>v. thumb s = Some v \<and> duration v = Some d) \<Longrightarrow>
               P (f (seekTime s) (timeSeconds s) d)"
  shows "run_frame P D s s2"
proof -
  from run obtain new1 where n1: "calls (doc s1) = calls (doc s) @ new1"
    "list_all (internal_call P (thumbVideo s) (canvas s)) new1"
    by (auto simp: run_frame_def)
  from step obtain new2 where n2: "calls (doc s2) = calls (doc s1) @ new2"
    "list_all (new_call f s1) new2"
    by (auto simp: step_frame_def)
  have cs: "thumbVideo s1 = thumbVideo s" "canvas s1 = canvas s" "seekTime s1 = seekTime s"
    "timeSeconds s1 = timeSeconds s"
    using run by (simp_all add: run_frame_def)
  have seek: "P (f (seekTime s1) (timeSeconds s1) d)" if "thumb s1 = Some v" "duration v = Some d" for v d
  proof -
    have "D (Some d) \<or> (\<exists>v0. thumb s = Some v0 \<and> duration v0 = Some d)"
      using run that by (auto simp: run_frame_def split: option.splits)
    from ok [OF this] show ?thesis by (simp add: cs)
  qed
  have "list_all (internal_call P (thumbVideo s) (canvas s)) new2"
    using n2(2) new_call_internal [of f s1 _ "thumbVideo s" "canvas s" P] cs seek
    by (auto simp: list_all_iff)
  then have calls: "\<exists>new. calls (doc s2) = calls (doc s) @ new \<and>
      list_all (internal_call P (thumbVideo s) (canvas s)) new"
    using n1 n2(1) by (intro exI [of _ "new1 @ new2"]) simp
  have dur: "(case thumb s2 of None \<Rightarrow> True
       | Some v' \<Rightarrow> duration v' = None \<or> D (duration v') \<or>
           (case thumb s of None \<Rightarrow> False | Some v \<Rightarrow> duration v' = duration v))"
    using run step by (auto simp: run_frame_def step_frame_def split: option.splits)
  have rest: "thumbVideo s2 = thumbVideo s \<and> canvas s2 = canvas s \<and> seekTime s2 = seekTime s \<and>
      timeSeconds s2 = timeSeconds s \<and> length (nodes (doc s2)) = length (nodes (doc s)) \<and>
      (\<forall>j. j \<noteq> thumbVideo s \<longrightarrow> nodes (doc s2) ! j = nodes (doc s) ! j)"
    using run step by (simp add: run_frame_def step_frame_def)
  show ?thesis
    unfolding run_frame_def using dur rest calls by blast
qed

lemma el_run_snoc: "el_run (evs @ [ev]) s = el_step ev (el_run evs s)"
  by (simp add: el_run_def)

lemma url_run_snoc: "url_run (evs @ [ev]) s = url_step ev (url_run evs s)"
  by (simp add: url_run_def)

lemma el_run_frame:
  assumes "list_all (reports D) evs"
    and "\<And>d. D (Some d) \<or> (\<exists>v. thumb s = Some v \<and> duration v = Some d) \<Longrightarrow>
               P (el_finalSeekTime (seekTime s) d)"
  shows "run_frame P D s (el_run evs s)"
  using assms(1)
proof (induction evs rule: rev_induct)
  case Nil
  show ?case by (simp add: el_run_def run_frame_refl)
next
  case (snoc ev evs)
  then have "run_frame P D s (el_run evs s)" and "reports D ev" by simp_all
  then show ?case
    unfolding el_run_snoc
    by (rule run_frame_step [OF _ el_step_frame]) (rule assms(2))
qed

lemma url_run_frame:
  assumes "list_all (reports D) evs"
    and "\<And>d. D (Some d) \<or> (\<exists>v. thumb s = Some v \<and> duration v = Some d) \<Longrightarrow>
               P (url_seekTime (timeSeconds s) d)"
  shows "run_frame P D s (url_run evs s)"
  using assms(1)
proof (induction evs rule: rev_induct)
  case Nil
  show ?case by (simp add: url_run_def run_frame_refl)
next
  case (snoc ev evs)
  then have "run_frame P D s (url_run evs s)" and "reports D ev" by simp_all
  then show ?case
    unfolding url_run_snoc
    by (rule run_frame_step [OF _ url_step_frame]) (rule assms(2))
qed

lemma reports_any: "list_all (reports (\<lambda>du. True)) evs"
  by (simp add: list_all_iff reports_def split: env_event.splits)

text \<open>The closing timer is one more step.\<close>

lemma el_finish_frame:
  assumes "run_frame P D s s1"
    and "\<And>d. D (Some d) \<or> (\<exists>v. thumb s = Some v \<and> duration v = Some d) \<Longrightarrow>
               P (el_finalSeekTime (seekTime s) d)"
  shows "run_frame P D s (el_finish s1)"
proof -
  have "run_frame P D s (el_step (TimerFires tid) s1)" for tid
    by (rule run_frame_step [OF assms(1) el_step_frame]) (simp add: reports_def, rule assms(2))
  then show ?thesis
    using assms(1) by (simp add: el_finish_def split: option.splits)
qed

lemma url_finish_frame:
  assumes "run_frame P D s s1"
    and "\<And>d. D (Some d) \<or> (\<exists>v. thumb s = Some v \<and> duration v = Some d) \<Longrightarrow>
               P (url_seekTime (timeSeconds s) d)"
  shows "run_frame P D s (url_finish s1)"
proof -
  have "run_frame P D s (url_step (TimerFires tid) s1)" for tid
    by (rule run_frame_step [OF assms(1) url_step_frame]) (simp add: reports_def, rule assms(2))
  then show ?thesis
    using assms(1) by (simp add: url_finish_def)
qed


subsection \<open>A settled capture is inert\<close>

lemma filter_absent:
  "map_of ts tid = None \<Longrightarrow> filter (\<lambda>(i, cb). i \<noteq> tid) ts = ts"
  by (induction ts) (auto split: if_splits)

lemma clearTimeout_absent: "map_of (timers s) tid = None \<Longrightarrow> clearTimeout tid s = s"
  by (simp add: clearTimeout_def filter_absent)

lemma el_resolved_inert:
  assumes "resolved s" and "thumb s = Some v" and "listeners v = []"
  shows "el_step (Dispatch e) s = s" and "el_step (TimerFires tid) s = clearTimeout tid s"
proof -
  show "el_step (Dispatch e) s = s"
    using assms by (simp add: el_step_def env_step_def dispatch_def)
  have "el_timer cb (clearTimeout tid s) = clearTimeout tid s" for cb
    using assms
    by (cases cb)
      (simp_all add: el_onTimeout_def el_metadataDelay_def el_seekedDelay_def el_captureRetry_def
        split: option.splits)
  then show "el_step (TimerFires tid) s = clearTimeout tid s"
    by (simp add: el_step_def env_step_def fire_timer_def clearTimeout_absent split: option.splits)
qed

lemma url_resolved_inert:
  assumes "resolved s" and "thumb s = Some v" and "listeners v = []"
  shows "url_step (Dispatch e) s = s" and "url_step (TimerFires tid) s = clearTimeout tid s"
proof -
  show "url_step (Dispatch e) s = s"
    using assms by (simp add: url_step_def env_step_def dispatch_def)
  have "url_timer cb (clearTimeout tid s) = clearTimeout tid s" for cb
    using assms
    by (cases cb) (simp_all add: url_onTimeout_def url_captureRetry_def split: option.splits)
  then show "url_step (TimerFires tid) s = clearTimeout tid s"
    by (simp add: url_step_def env_step_def fire_timer_def clearTimeout_absent split: option.splits)
qed

lemma no_timeout_left:
  assumes "timers_ok s" and "map_of (timers s) 1 = None"
  shows "Timeout_cb \<notin> snd ` set (timers s)"
proof
  assume "Timeout_cb \<in> snd ` set (timers s)"
  then obtain i where i: "(i, Timeout_cb) \<in> set (timers s)" by force
  then have "i = 1" using assms(1) by (auto simp: timers_ok_def list_all_iff)
  then have "1 \<in> fst ` set (timers s)" using i by force
  then show False using assms(2) by (simp add: map_of_eq_None_iff)
qed

lemma live_settled:
  assumes "capture_live c s"
  shows "if settled s = None
         then cleanups s = 0 \<and> timeout_pending s
         else cleanups s = 1 \<and> map_option listeners (thumb s) = Some []
            \<and> (c \<longrightarrow> Timeout_cb \<notin> snd ` set (timers s))"
  using assms no_timeout_left [of s]
  by (auto simp: capture_live_def capture_inv_def split: option.splits)

subsection \<open>Evaluation on the example page\<close>

lemma page_of_video [simp]:
  "video_at (page_of v) 0 = Some v" "length (nodes (page_of v)) = 1" "calls (page_of v) = []"
  by (simp_all add: page_of_def video_at_def)

lemma demo_page_of: "demo_page = page_of demo_video"
  by (simp add: demo_page_def page_of_def)

lemma demo_video_fields [simp]:
  "src demo_video = ''/test-video.mp4''" "duration demo_video = Some 100"
  "readyState demo_video = 4" "paused demo_video" "currentTime demo_video = 0"
  "listeners demo_video = []"
  by (simp_all add: demo_video_def new_video_def)

lemma el_fresh_fields [simp]:
  "listeners (el_fresh u) = [(LoadedMetadata, H_onLoadedMetadata, False), (CanPlay, H_onCanPlay, False),
                     (Seeked, H_onSeeked, True), (ErrorEvent, H_onError, True)]"
  "duration (el_fresh u) = None" "readyState (el_fresh u) = 0" "currentTime (el_fresh u) = 0"
  "listeners (url_fresh u) = [(LoadedMetadata, H_onLoadedMetadata, False), (CanPlay, H_onCanPlay, False),
                     (Seeked, H_onSeeked, False), (ErrorEvent, H_onError, False)]"
  "duration (url_fresh u) = None" "readyState (url_fresh u) = 0" "currentTime (url_fresh u) = 0"
  by (simp_all add: el_fresh_def url_fresh_def new_video_def)

lemmas el_eval =
  captureVideoFrameFromElement_def el_finish_def el_run_def el_step_def env_step_def dispatch_def
  fire_timer_def el_readFrame_def el_captureFrame_def el_captureRetry_def el_requestSeek_def
  el_onLoadedMetadata_def el_metadataDelay_def el_onCanPlay_def el_onSeeked_def
  el_seekedDelay_def el_onError_def el_onTimeout_def el_finalSeekTime_def el_seekTime0_def
  removeEventListener_def events_success_def events_load_error_def Let_def

lemmas url_eval =
  captureVideoFrame_def url_finish_def url_run_def url_step_def env_step_def dispatch_def
  fire_timer_def url_requestSeek_def url_onLoadedMetadata_def url_onCanPlay_def url_onSeeked_def
  url_captureRetry_def url_onError_def url_onTimeout_def url_seekTime_def
  removeEventListener_def events_url_success_def url_executor_state Let_def

text \<open>
  C4, as the code has it. On every path of a capture, \<open>cleanup()\<close> has not run while the
  promise is pending (and the overall timeout is then pending), and has run exactly once
  when the promise has settled: no listener is then registered on the internal element
  and, in captureVideoFrameFromElement, the overall timeout is no longer pending. The
  other timers are not cleared; once the promise has settled, a timer that fires or an
  event that is dispatched changes nothing but the set of pending timers. This holds for
  captureVideoFrame on every document and URL, and for captureVideoFrameFromElement
  whenever the executor has set the capture up (the argument is a video element).
\<close>

theorem capture_cleanup_once:
  "(let u = url_state_after du videoUrl t' w' h' evs'
    in if settled u = None
       then cleanups u = 0 \<and> timeout_pending u
       else cleanups u = 1
          \<and> map_option listeners (thumb u) = Some []
          \<and> (\<forall>e. url_step (Dispatch e) u = u)
          \<and> (\<forall>tid. url_step (TimerFires tid) u = clearTimeout tid u))
   \<and> (\<forall>s. el_state_after d videoElement t w h evs = Some s \<longrightarrow>
         (if settled s = None
          then cleanups s = 0 \<and> timeout_pending s
          else cleanups s = 1
             \<and> map_option listeners (thumb s) = Some []
             \<and> Timeout_cb \<notin> snd ` set (timers s)
             \<and> (\<forall>e. el_step (Dispatch e) s = s)
             \<and> (\<forall>tid. el_step (TimerFires tid) s = clearTimeout tid s)))"
proof (intro conjI allI impI)
  define u where "u = url_state_after du videoUrl t' w' h' evs'"
  have lu: "capture_live False u"
    by (auto simp: u_def url_state_after_def intro: url_run_live url_executor_live)
  have ius: "url_step (Dispatch e) u = u \<and> url_step (TimerFires tid) u = clearTimeout tid u"
    if "settled u \<noteq> None" for e tid
  proof -
    from lu that obtain v where "resolved u" "thumb u = Some v" "listeners v = []"
      by (auto simp: capture_live_def capture_inv_def split: option.splits)
    then show ?thesis using url_resolved_inert by blast
  qed
  have "if settled u = None
       then cleanups u = 0 \<and> timeout_pending u
       else cleanups u = 1
          \<and> map_option listeners (thumb u) = Some []
          \<and> (\<forall>e. url_step (Dispatch e) u = u)
          \<and> (\<forall>tid. url_step (TimerFires tid) u = clearTimeout tid u)"
    using live_settled [OF lu] ius by (simp split: if_splits)
  then show "let u = url_state_after du videoUrl t' w' h' evs'
    in if settled u = None
       then cleanups u = 0 \<and> timeout_pending u
       else cleanups u = 1
          \<and> map_option listeners (thumb u) = Some []
          \<and> (\<forall>e. url_step (Dispatch e) u = u)
          \<and> (\<forall>tid. url_step (TimerFires tid) u = clearTimeout tid u)"
    unfolding u_def Let_def .
next
  fix s
  assume a: "el_state_after d videoElement t w h evs = Some s"
  from a obtain s0 where ex: "el_executor d videoElement t w h = Inr s0"
    and s: "s = el_run evs s0"
    by (auto simp: el_state_after_def split: sum.splits)
  have ls: "capture_live True s"
    unfolding s using ex by (intro el_run_live el_executor_live)
  have ies: "el_step (Dispatch e) s = s \<and> el_step (TimerFires tid) s = clearTimeout tid s"
    if "settled s \<noteq> None" for e tid
  proof -
    from ls that obtain v where "resolved s" "thumb s = Some v" "listeners v = []"
      by (auto simp: capture_live_def capture_inv_def split: option.splits)
    then show ?thesis using el_resolved_inert by blast
  qed
  show "if settled s = None
          then cleanups s = 0 \<and> timeout_pending s
          else cleanups s = 1
             \<and> map_option listeners (thumb s) = Some []
             \<and> Timeout_cb \<notin> snd ` set (timers s)
             \<and> (\<forall>e. el_step (Dispatch e) s = s)
             \<and> (\<forall>tid. el_step (TimerFires tid) s = clearTimeout tid s)"
    using live_settled [OF ls] ies by (simp split: if_splits)
qed

text \<open>
  The two captures of the example page that the witness and the counterexample of C4 look
  at: a load error after \<open>loadedmetadata\<close>, and a capture from the URL that succeeds.
\<close>

lemma demo_load_error:
  "\<exists>s. el_state_after demo_page 0 0 320 180 events_load_error = Some s
      \<and> settled s = Some (Inl (Error ''Failed to load video for thumbnail''))
      \<and> timers s = [(2, MetadataDelay_cb)]"
proof -
  from el_executor_Inr [of demo_page 0 demo_video 0 320 180]
  obtain s0 where ex: "el_executor demo_page 0 0 320 180 = Inr s0"
    and f [simp]: "thumb s0 = Some (el_fresh ''/test-video.mp4'')" "seekTime s0 = 1 / 10"
      "timers s0 = [(1, Timeout_cb)]" "lastTimer s0 = 1" "timeoutId s0 = Some 1"
      "\<not> resolved s0" "settled s0 = None" "cleanups s0 = 0"
    by (auto simp: demo_page_of el_seekTime0_def)
  have "settled (el_run events_load_error s0)
          = Some (Inl (Error ''Failed to load video for thumbnail''))"
    "timers (el_run events_load_error s0) = [(2, MetadataDelay_cb)]"
    by (simp_all add: el_eval)
  then show ?thesis
    using ex by (simp add: el_state_after_def)
qed

lemma demo_url_success:
  "settled (url_state_after d ''/test-video.mp4'' 0 320 180 events_url_success)
     = Some (Inr ''data:image/jpeg;base64'')"
  "timers (url_state_after d ''/test-video.mp4'' 0 320 180 events_url_success)
     = [(1, Timeout_cb)]"
  by (simp_all add: url_state_after_def url_eval)

theorem capture_cleanup_once_witness:
  "nodes empty_page = []
   \<and> settled (url_state_after empty_page ''/test-video.mp4'' 0 320 180 events_url_success)
        = Some (Inr ''data:image/jpeg;base64'')
   \<and> cleanups (url_state_after empty_page ''/test-video.mp4'' 0 320 180 events_url_success) = 1
   \<and> map_option listeners
        (thumb (url_state_after empty_page ''/test-video.mp4'' 0 320 180 events_url_success))
        = Some []
   \<and> map_option settled (el_state_after demo_page 0 0 320 180 events_load_error)
        = Some (Some (Inl (Error ''Failed to load video for thumbnail'')))
   \<and> map_option cleanups (el_state_after demo_page 0 0 320 180 events_load_error) = Some 1
   \<and> map_option (\<lambda>s. map_option listeners (thumb s))
        (el_state_after demo_page 0 0 320 180 events_load_error) = Some (Some [])"
proof -
  from demo_load_error obtain s where
    s: "el_state_after demo_page 0 0 320 180 events_load_error = Some s"
      "settled s = Some (Inl (Error ''Failed to load video for thumbnail''))"
    by blast
  note t = capture_cleanup_once [of empty_page "''/test-video.mp4''" 0 320 180 events_url_success
      demo_page 0 0 320 180 events_load_error]
  have u: "settled (url_state_after empty_page ''/test-video.mp4'' 0 320 180 events_url_success)
        = Some (Inr ''data:image/jpeg;base64'')"
    by (rule demo_url_success(1))
  from t have tu: "cleanups (url_state_after empty_page ''/test-video.mp4'' 0 320 180 events_url_success) = 1
      \<and> map_option listeners
           (thumb (url_state_after empty_page ''/test-video.mp4'' 0 320 180 events_url_success))
           = Some []"
    by (simp add: Let_def u)
  from t s(1) have "if settled s = None
          then cleanups s = 0 \<and> timeout_pending s
          else cleanups s = 1
             \<and> map_option listeners (thumb s) = Some []
             \<and> Timeout_cb \<notin> snd ` set (timers s)
             \<and> (\<forall>e. el_step (Dispatch e) s = s)
             \<and> (\<forall>tid. el_step (TimerFires tid) s = clearTimeout tid s)"
    by blast
  then have ts: "cleanups s = 1 \<and> map_option listeners (thumb s) = Some []"
    using s(2) by simp
  show ?thesis
    using tu ts s u by (simp add: empty_page_def)
qed

text \<open>
  C4 as stated fails. In captureVideoFrameFromElement a load error after \<open>loadedmetadata\<close>
  rejects the promise while the 100 ms timer set by \<open>onLoadedMetadata\<close> is still pending; in
  captureVideoFrame a successful capture resolves the promise while the 15 s timer is still
  pending.
\<close>

theorem capture_timers_left_counterexample:
  "map_option settled (el_state_after demo_page 0 0 320 180 events_load_error)
     = Some (Some (Inl (Error ''Failed to load video for thumbnail'')))
   \<and> map_option timers (el_state_after demo_page 0 0 320 180 events_load_error)
     = Some [(2, MetadataDelay_cb)]
   \<and> settled (url_state_after demo_page ''/test-video.mp4'' 0 320 180 events_url_success)
     = Some (Inr ''data:image/jpeg;base64'')
   \<and> timers (url_state_after demo_page ''/test-video.mp4'' 0 320 180 events_url_success)
     = [(1, Timeout_cb)]"
proof -
  from demo_load_error obtain s where
    "el_state_after demo_page 0 0 320 180 events_load_error = Some s"
    "settled s = Some (Inl (Error ''Failed to load video for thumbnail''))"
    "timers s = [(2, MetadataDelay_cb)]"
    by blast
  then show ?thesis
    using demo_url_success by simp
qed

subsection \<open>The document a capture leaves\<close>

lemma fromElement_run:
  assumes "video_at d el = Some ve" and "list_all (reports D) evs"
    and ok: "\<And>x. D (Some x) \<Longrightarrow> P (el_finalSeekTime (el_seekTime0 (duration ve) t) x)"
  shows "\<exists>s0. el_executor d el t w h = Inr s0
           \<and> fst (captureVideoFrameFromElement d el t w h evs) = doc (el_finish (el_run evs s0))
           \<and> run_frame P D s0 (el_finish (el_run evs s0))
           \<and> thumbVideo s0 = length (nodes d) \<and> canvas s0 = Suc (length (nodes d))
           \<and> length (nodes (doc s0)) = length (nodes d) + 2
           \<and> (\<forall>j < length (nodes d). nodes (doc s0) ! j = nodes d ! j)
           \<and> calls (doc s0) = calls d @ [CreateElement ''video'' (length (nodes d)),
                CreateElement ''canvas'' (Suc (length (nodes d))),
                Load (length (nodes d)) (if src ve \<noteq> [] then src ve else currentSrc ve)]"
proof -
  from el_executor_Inr [OF assms(1), of t w h] obtain s0 where
    ex: "el_executor d el t w h = Inr s0"
    and th: "thumb s0 = Some (el_fresh (if src ve \<noteq> [] then src ve else currentSrc ve))"
    and st: "seekTime s0 = el_seekTime0 (duration ve) t"
    and rest: "thumbVideo s0 = length (nodes d)" "canvas s0 = Suc (length (nodes d))"
      "length (nodes (doc s0)) = length (nodes d) + 2"
      "\<forall>j < length (nodes d). nodes (doc s0) ! j = nodes d ! j"
      "calls (doc s0) = calls d @ [CreateElement ''video'' (length (nodes d)),
          CreateElement ''canvas'' (Suc (length (nodes d))),
          Load (length (nodes d)) (if src ve \<noteq> [] then src ve else currentSrc ve)]"
    by blast
  have seek: "P (el_finalSeekTime (seekTime s0) x)"
    if "D (Some x) \<or> (\<exists>v. thumb s0 = Some v \<and> duration v = Some x)" for x
    using that th st ok by (auto simp: el_fresh_def new_video_def)
  have "run_frame P D s0 (el_finish (el_run evs s0))"
    by (intro el_finish_frame el_run_frame assms(2)) (rule seek, assumption)+
  then show ?thesis
    using ex rest by (simp add: captureVideoFrameFromElement_def Let_def)
qed

lemma fromElement_document:
  assumes "video_at d el = Some ve" and "list_all (reports D) evs"
    and ok: "\<And>x. D (Some x) \<Longrightarrow> P (el_finalSeekTime (el_seekTime0 (duration ve) t) x)"
  shows "length (nodes (fst (captureVideoFrameFromElement d el t w h evs))) = length (nodes d) + 2
       \<and> (\<forall>j < length (nodes d).
             nodes (fst (captureVideoFrameFromElement d el t w h evs)) ! j = nodes d ! j)
       \<and> (\<exists>new. calls (fst (captureVideoFrameFromElement d el t w h evs))
                  = calls d @ [CreateElement ''video'' (length (nodes d)),
                       CreateElement ''canvas'' (Suc (length (nodes d))),
                       Load (length (nodes d)) (if src ve \<noteq> [] then src ve else currentSrc ve)]
                     @ new
               \<and> list_all (internal_call P (length (nodes d)) (Suc (length (nodes d)))) new)"
proof -
  from fromElement_run [where d = d and el = el and ve = ve and D = D and evs = evs and P = P
      and t = t and w = w and h = h, OF assms]
  obtain s0 where
    d': "fst (captureVideoFrameFromElement d el t w h evs) = doc (el_finish (el_run evs s0))"
    and rf: "run_frame P D s0 (el_finish (el_run evs s0))"
    and s0: "thumbVideo s0 = length (nodes d)" "canvas s0 = Suc (length (nodes d))"
      "length (nodes (doc s0)) = length (nodes d) + 2"
      "\<forall>j < length (nodes d). nodes (doc s0) ! j = nodes d ! j"
      "calls (doc s0) = calls d @ [CreateElement ''video'' (length (nodes d)),
          CreateElement ''canvas'' (Suc (length (nodes d))),
          Load (length (nodes d)) (if src ve \<noteq> [] then src ve else currentSrc ve)]"
    by blast
  from rf obtain new where new:
    "calls (doc (el_finish (el_run evs s0))) = calls (doc s0) @ new"
    "list_all (internal_call P (thumbVideo s0) (canvas s0)) new"
    by (auto simp: run_frame_def)
  have len: "length (nodes (doc (el_finish (el_run evs s0)))) = length (nodes d) + 2"
    using rf s0 by (simp add: run_frame_def)
  have nth: "nodes (doc (el_finish (el_run evs s0))) ! j = nodes d ! j" if "j < length (nodes d)" for j
    using rf s0 that by (simp add: run_frame_def)
  show ?thesis
    unfolding d' using len nth new s0 by auto
qed

lemma video_at_cong:
  "length (nodes d) \<le> length (nodes d') \<Longrightarrow> j < length (nodes d) \<Longrightarrow>
     nodes d' ! j = nodes d ! j \<Longrightarrow> video_at d' j = video_at d j"
  by (simp add: video_at_def)

lemma internal_call_touches:
  "internal_call P tv cv c \<Longrightarrow> el < tv \<Longrightarrow> el < cv \<Longrightarrow> \<not> touches el c"
  by (cases c) auto

lemma video_at_length: "video_at d el = Some ve \<Longrightarrow> el < length (nodes d)"
  by (simp add: video_at_def split: if_splits)

lemma capture_untouched:
  assumes "video_at d el = Some ve"
  shows "video_at (fst (captureVideoFrameFromElement d el t w h evs)) el = Some ve
       \<and> (\<exists>new. calls (fst (captureVideoFrameFromElement d el t w h evs)) = calls d @ new
               \<and> list_all (\<lambda>c. \<not> touches el c) new)"
proof -
  let ?d' = "fst (captureVideoFrameFromElement d el t w h evs)"
  let ?n = "length (nodes d)"
  have el: "el < ?n"
    using assms by (rule video_at_length)
  from fromElement_document [where d = d and el = el and ve = ve
      and D = "\<lambda>du. True" and evs = evs and P = "\<lambda>x. True" and t = t and w = w and h = h,
      OF assms reports_any]
  obtain new where len: "length (nodes ?d') = ?n + 2"
    and nth: "\<forall>j < ?n. nodes ?d' ! j = nodes d ! j"
    and calls: "calls ?d' = calls d @ [CreateElement ''video'' ?n, CreateElement ''canvas'' (Suc ?n),
                  Load ?n (if src ve \<noteq> [] then src ve else currentSrc ve)] @ new"
    and new: "list_all (internal_call (\<lambda>x. True) ?n (Suc ?n)) new"
    by auto
  have "video_at ?d' el = video_at d el"
    using len nth el by (intro video_at_cong) simp_all
  moreover have "list_all (\<lambda>c. \<not> touches el c) new"
    using new el internal_call_touches [of "\<lambda>x. True" ?n "Suc ?n" _ el]
    by (auto simp: list_all_iff)
  then have "list_all (\<lambda>c. \<not> touches el c)
      ([CreateElement ''video'' ?n, CreateElement ''canvas'' (Suc ?n),
        Load ?n (if src ve \<noteq> [] then src ve else currentSrc ve)] @ new)"
    using el by simp
  ultimately show ?thesis
    using assms calls by (intro conjI exI [of _ "[CreateElement ''video'' ?n,
        CreateElement ''canvas'' (Suc ?n),
        Load ?n (if src ve \<noteq> [] then src ve else currentSrc ve)] @ new"]) simp_all
qed

text \<open>
  C10. A capture leaves the supplied video element as it was: after the operation, on
  every path, the element has the same fields (currentTime, paused, src, listeners and the
  others), every node the document had is unchanged, and no call the capture added was
  made on the supplied element.
\<close>

theorem captureVideoFrameFromElement_leaves_element:
  assumes "video_at d videoElement = Some ve"
  shows "video_at (fst (captureVideoFrameFromElement d videoElement t w h evs)) videoElement = Some ve
       \<and> (\<forall>j < length (nodes d).
             nodes (fst (captureVideoFrameFromElement d videoElement t w h evs)) ! j = nodes d ! j)
       \<and> (\<exists>new. calls (fst (captureVideoFrameFromElement d videoElement t w h evs)) = calls d @ new
               \<and> list_all (\<lambda>c. \<not> touches videoElement c) new)"
proof -
  from fromElement_document [where d = d and el = videoElement and ve = ve
      and D = "\<lambda>du. True" and evs = evs and P = "\<lambda>x. True" and t = t and w = w and h = h,
      OF assms reports_any]
  have "\<forall>j < length (nodes d).
          nodes (fst (captureVideoFrameFromElement d videoElement t w h evs)) ! j = nodes d ! j"
    by simp
  then show ?thesis
    using capture_untouched [OF assms, of t w h evs] by simp
qed

lemmas el_eval_sym =
  captureVideoFrameFromElement_def el_finish_def el_run_def el_step_def env_step_def dispatch_def
  fire_timer_def el_readFrame_def el_captureFrame_def el_captureRetry_def el_requestSeek_def
  el_onLoadedMetadata_def el_metadataDelay_def el_onCanPlay_def el_onSeeked_def
  el_seekedDelay_def el_onError_def el_onTimeout_def
  removeEventListener_def events_success_def events_load_error_def Let_def

text \<open>A capture that succeeds: metadata, the 100 ms timer, \<open>seeked\<close>, the 50 ms timer.\<close>

lemma success_calls:
  assumes "src v = ''/test-video.mp4''"
  shows "calls (fst (captureVideoFrameFromElement (page_of v) 0 t w h (events_success du)))
       = [CreateElement ''video'' 1, CreateElement ''canvas'' 2, Load 1 ''/test-video.mp4'',
          SetCurrentTime 1 (el_finalSeekTime (el_seekTime0 (duration v) t) du),
          DrawImage 2 1, Load 1 []]"
    and "snd (captureVideoFrameFromElement (page_of v) 0 t w h (events_success du))
       = Some (Inr ''data:image/jpeg;base64'')"
proof -
  from el_executor_Inr [of "page_of v" 0 v t w h]
  obtain s0 where ex: "el_executor (page_of v) 0 t w h = Inr s0"
    and f [simp]: "thumb s0 = Some (el_fresh ''/test-video.mp4'')"
      "seekTime s0 = el_seekTime0 (duration v) t" "thumbVideo s0 = 1" "canvas s0 = 2"
      "timers s0 = [(1, Timeout_cb)]" "lastTimer s0 = 1" "timeoutId s0 = Some 1"
      "\<not> resolved s0" "settled s0 = None" "cleanups s0 = 0"
      "raster s0 = Inr ''data:image/jpeg;base64''"
      "calls (doc s0) = [CreateElement ''video'' 1, CreateElement ''canvas'' 2,
          Load 1 ''/test-video.mp4'']"
    using assms by auto
  show "calls (fst (captureVideoFrameFromElement (page_of v) 0 t w h (events_success du)))
       = [CreateElement ''video'' 1, CreateElement ''canvas'' 2, Load 1 ''/test-video.mp4'',
          SetCurrentTime 1 (el_finalSeekTime (el_seekTime0 (duration v) t) du),
          DrawImage 2 1, Load 1 []]"
    by (simp add: el_eval_sym ex)
  show "snd (captureVideoFrameFromElement (page_of v) 0 t w h (events_success du))
       = Some (Inr ''data:image/jpeg;base64'')"
    by (simp add: el_eval_sym ex)
qed

lemma url_success_calls:
  "calls (fst (captureVideoFrame demo_page ''/test-video.mp4'' 0 320 180 events_url_success))
     = [CreateElement ''video'' 1, CreateElement ''canvas'' 2, Load 1 ''/test-video.mp4'',
        SetCurrentTime 1 0, DrawImage 2 1, Load 1 []]"
  by (simp add: url_eval demo_page_of)

lemma demo_seek_times:
  "el_finalSeekTime (el_seekTime0 (Some 100) 0) 100 = 1 / 10"
  "el_finalSeekTime (el_seekTime0 (Some (3 / 20)) 0) (3 / 20) = 1 / 20"
  "el_finalSeekTime (el_seekTime0 (Some (1 / 20)) 1) (1 / 20) = - (1 / 20)"
  by (simp_all add: el_finalSeekTime_def el_seekTime0_def)

theorem captureVideoFrameFromElement_leaves_element_witness:
  "video_at demo_page 0 = Some demo_video
   \<and> video_at (fst (captureVideoFrameFromElement demo_page 0 0 320 180 (events_success 100))) 0
        = Some demo_video
   \<and> calls (fst (captureVideoFrameFromElement demo_page 0 0 320 180 (events_success 100)))
        = [CreateElement ''video'' 1, CreateElement ''canvas'' 2, Load 1 ''/test-video.mp4'',
           SetCurrentTime 1 (1 / 10), DrawImage 2 1, Load 1 []]"
proof -
  have h: "video_at demo_page 0 = Some demo_video"
    by (simp add: demo_page_of)
  note t = captureVideoFrameFromElement_leaves_element [OF h, of 0 320 180 "events_success 100"]
  have c: "calls (fst (captureVideoFrameFromElement demo_page 0 0 320 180 (events_success 100)))
        = [CreateElement ''video'' 1, CreateElement ''canvas'' 2, Load 1 ''/test-video.mp4'',
           SetCurrentTime 1 (1 / 10), DrawImage 2 1, Load 1 []]"
    using success_calls(1) [of demo_video 0 320 180 100]
    by (simp add: demo_page_of demo_seek_times)
  show ?thesis
    using t h c by simp
qed

text \<open>
  C9, as the code has it. captureVideoFrameFromElement takes the URL (\<open>src\<close>, or \<open>currentSrc\<close>
  when \<open>src\<close> is empty) from the supplied element, creates a video element and a canvas of
  its own, loads the URL into the new video element, and from then on only reads frames
  from the new element into the canvas, seeks the new element and resets it: the new
  element is not the supplied one.
\<close>

theorem captureVideoFrameFromElement_creates_decoder:
  assumes "video_at d videoElement = Some ve"
  shows "videoElement \<noteq> length (nodes d)
       \<and> video_at d (length (nodes d)) = None
       \<and> (\<exists>new. calls (fst (captureVideoFrameFromElement d videoElement t w h evs))
                  = calls d @ [CreateElement ''video'' (length (nodes d)),
                       CreateElement ''canvas'' (Suc (length (nodes d))),
                       Load (length (nodes d)) (if src ve \<noteq> [] then src ve else currentSrc ve)]
                     @ new
               \<and> list_all (internal_call (\<lambda>x. True) (length (nodes d)) (Suc (length (nodes d)))) new)"
proof -
  have "videoElement < length (nodes d)"
    using assms by (rule video_at_length)
  moreover have "video_at d (length (nodes d)) = None"
    by (simp add: video_at_def)
  moreover note fromElement_document [where d = d and el = videoElement and ve = ve
      and D = "\<lambda>du. True" and evs = evs and P = "\<lambda>x. True" and t = t and w = w and h = h,
      OF assms reports_any]
  ultimately show ?thesis by simp
qed

theorem captureVideoFrameFromElement_creates_decoder_witness:
  "video_at demo_page 0 = Some demo_video
   \<and> (0::nat) \<noteq> length (nodes demo_page)
   \<and> calls (fst (captureVideoFrameFromElement demo_page 0 40 320 180 (events_success 100)))
        = [CreateElement ''video'' 1, CreateElement ''canvas'' 2, Load 1 ''/test-video.mp4'',
           SetCurrentTime 1 40, DrawImage 2 1, Load 1 []]"
proof -
  have h: "video_at demo_page 0 = Some demo_video"
    by (simp add: demo_page_of)
  note t = captureVideoFrameFromElement_creates_decoder [OF h, of 40 320 180 "events_success 100"]
  have c: "calls (fst (captureVideoFrameFromElement demo_page 0 40 320 180 (events_success 100)))
        = [CreateElement ''video'' 1, CreateElement ''canvas'' 2, Load 1 ''/test-video.mp4'',
           SetCurrentTime 1 40, DrawImage 2 1, Load 1 []]"
    using success_calls(1) [of demo_video 40 320 180 100]
    by (simp add: demo_page_of el_finalSeekTime_def el_seekTime0_def)
  show ?thesis
    using t h c by simp
qed

text \<open>
  C9 fails on the code: on a page whose only node is the supplied element 0, a capture at
  0 s creates a second video element (node 1) for the same URL, and the seek and the frame
  read are made on node 1. The documentation of the source says otherwise: the parameter
  is \<^emph>\<open>the video element to capture from\<close>, captureVideoFrame \<^emph>\<open>creates a new video element,
  so use captureVideoFrameFromElement if you already have a video element\<close>, and the
  component passes its element because that is \<^emph>\<open>more reliable than creating new
  elements\<close>.
\<close>

theorem captureVideoFrameFromElement_second_decoder_counterexample:
  "video_at demo_page 0 = Some demo_video
   \<and> nodes demo_page = [VideoNode demo_video]
   \<and> src demo_video = ''/test-video.mp4''
   \<and> calls (fst (captureVideoFrameFromElement demo_page 0 0 320 180 (events_success 100)))
        = [CreateElement ''video'' 1, CreateElement ''canvas'' 2, Load 1 ''/test-video.mp4'',
           SetCurrentTime 1 (1 / 10), DrawImage 2 1, Load 1 []]"
proof -
  have "video_at demo_page 0 = Some demo_video" "nodes demo_page = [VideoNode demo_video]"
    by (simp_all add: demo_page_def video_at_def)
  moreover have
    "calls (fst (captureVideoFrameFromElement demo_page 0 0 320 180 (events_success 100)))
        = [CreateElement ''video'' 1, CreateElement ''canvas'' 2, Load 1 ''/test-video.mp4'',
           SetCurrentTime 1 (1 / 10), DrawImage 2 1, Load 1 []]"
    using success_calls(1) [of demo_video 0 320 180 100]
    by (simp add: demo_page_of demo_seek_times)
  ultimately show ?thesis by simp
qed

text \<open>
  C6, as the code has it. For captureVideoFrameFromElement called with time 0 on an
  element whose duration d is above 0.1, while the decoder of the internal element
  reports the same duration (or none yet): every seek the capture requests is of the
  internal element, to min(0.1, d - 0.1); that time is above 0, and it is 0.1 when d is
  at least 0.2.
\<close>

theorem captureVideoFrameFromElement_start_nudge:
  assumes "video_at d videoElement = Some ve" and "duration ve = Some du" and "1 / 10 < du"
    and "list_all (reports (\<lambda>r. r = None \<or> r = Some du)) evs"
  shows "\<exists>new. calls (fst (captureVideoFrameFromElement d videoElement 0 w h evs))
                  = calls d @ [CreateElement ''video'' (length (nodes d)),
                       CreateElement ''canvas'' (Suc (length (nodes d))),
                       Load (length (nodes d)) (if src ve \<noteq> [] then src ve else currentSrc ve)]
                     @ new
            \<and> (\<forall>i x. SetCurrentTime i x \<in> set new \<longrightarrow>
                   i = length (nodes d) \<and> x = min (1 / 10) (du - 1 / 10) \<and> 0 < x
                 \<and> (1 / 5 \<le> du \<longrightarrow> x = 1 / 10))"
proof -
  let ?P = "\<lambda>x. x = min (1 / 10) (du - 1 / 10) \<and> 0 < x \<and> (1 / 5 \<le> du \<longrightarrow> x = 1 / 10)"
  have ok: "?P (el_finalSeekTime (el_seekTime0 (duration ve) 0) x)"
    if "Some x = None \<or> Some x = Some du" for x
    using that assms(2,3) by (auto simp: el_finalSeekTime_def el_seekTime0_def min_def)
  from fromElement_document [where d = d and el = videoElement and ve = ve
      and D = "\<lambda>r. r = None \<or> r = Some du" and evs = evs and P = ?P and t = 0 and w = w and h = h,
      OF assms(1) assms(4) ok]
  obtain new where calls: "calls (fst (captureVideoFrameFromElement d videoElement 0 w h evs))
                  = calls d @ [CreateElement ''video'' (length (nodes d)),
                       CreateElement ''canvas'' (Suc (length (nodes d))),
                       Load (length (nodes d)) (if src ve \<noteq> [] then src ve else currentSrc ve)]
                     @ new"
    and new: "list_all (internal_call ?P (length (nodes d)) (Suc (length (nodes d)))) new"
    by auto
  have "i = length (nodes d) \<and> ?P x" if "SetCurrentTime i x \<in> set new" for i x
  proof -
    from new have "\<forall>c \<in> set new. internal_call ?P (length (nodes d)) (Suc (length (nodes d))) c"
      by (simp only: list_all_iff)
    then have "internal_call ?P (length (nodes d)) (Suc (length (nodes d))) (SetCurrentTime i x)"
      using that by (rule bspec)
    then show ?thesis unfolding internal_call.simps .
  qed
  then show ?thesis
    using calls by blast
qed

theorem captureVideoFrameFromElement_start_nudge_witness:
  "video_at demo_page 0 = Some demo_video \<and> duration demo_video = Some 100
   \<and> (1::real) / 10 < 100
   \<and> list_all (reports (\<lambda>r. r = None \<or> r = Some 100)) (events_success 100)
   \<and> calls (fst (captureVideoFrameFromElement demo_page 0 0 320 180 (events_success 100)))
        = [CreateElement ''video'' 1, CreateElement ''canvas'' 2, Load 1 ''/test-video.mp4'',
           SetCurrentTime 1 (1 / 10), DrawImage 2 1, Load 1 []]
   \<and> SetCurrentTime 1 (1 / 10)
        \<in> set (calls (fst (captureVideoFrameFromElement demo_page 0 0 320 180 (events_success 100))))
   \<and> min (1 / 10) (100 - 1 / 10) = (1::real) / 10"
proof -
  have h: "video_at demo_page 0 = Some demo_video" "duration demo_video = Some 100"
    "(1::real) / 10 < 100"
    "list_all (reports (\<lambda>r. r = None \<or> r = Some 100)) (events_success 100)"
    by (simp_all add: demo_page_of events_success_def reports_def)
  note t = captureVideoFrameFromElement_start_nudge [OF h, of 320 180]
  have c: "calls (fst (captureVideoFrameFromElement demo_page 0 0 320 180 (events_success 100)))
        = [CreateElement ''video'' 1, CreateElement ''canvas'' 2, Load 1 ''/test-video.mp4'',
           SetCurrentTime 1 (1 / 10), DrawImage 2 1, Load 1 []]"
    using success_calls(1) [of demo_video 0 320 180 100]
    by (simp add: demo_page_of demo_seek_times)
  show ?thesis
    using t h c by simp
qed

text \<open>
  C6 as stated fails twice. captureVideoFrame, called with time 0 on a 100 s video,
  requests a seek to exactly 0. captureVideoFrameFromElement, called with time 0 on a video
  of 0.15 s, requests a seek to 0.05, not to 0.1.
\<close>

theorem capture_start_seek_counterexample:
  "calls (fst (captureVideoFrame demo_page ''/test-video.mp4'' 0 320 180 events_url_success))
     = [CreateElement ''video'' 1, CreateElement ''canvas'' 2, Load 1 ''/test-video.mp4'',
        SetCurrentTime 1 0, DrawImage 2 1, Load 1 []]
   \<and> (1::real) / 10 < 3 / 20
   \<and> calls (fst (captureVideoFrameFromElement (page_of (demo_video\<lparr>duration := Some (3 / 20)\<rparr>))
                   0 0 320 180 (events_success (3 / 20))))
     = [CreateElement ''video'' 1, CreateElement ''canvas'' 2, Load 1 ''/test-video.mp4'',
        SetCurrentTime 1 (1 / 20), DrawImage 2 1, Load 1 []]"
  using success_calls(1) [of "demo_video\<lparr>duration := Some (3 / 20)\<rparr>" 0 320 180 "3 / 20"]
    url_success_calls
  by (simp add: demo_seek_times)

text \<open>
  C7 fails on the code: for a video of 0.05 s and a requested time of 1 s,
  captureVideoFrameFromElement assigns \<open>min(max(0, 1), 0.05 - 0.1) = -0.05\<close> to
  \<open>currentTime\<close> of the internal element, a negative seek time.
\<close>

theorem captureVideoFrameFromElement_negative_seek:
  "calls (fst (captureVideoFrameFromElement (page_of (demo_video\<lparr>duration := Some (1 / 20)\<rparr>))
                 0 1 320 180 (events_success (1 / 20))))
     = [CreateElement ''video'' 1, CreateElement ''canvas'' 2, Load 1 ''/test-video.mp4'',
        SetCurrentTime 1 (- (1 / 20)), DrawImage 2 1, Load 1 []]
   \<and> - (1 / 20) < (0::real)"
  using success_calls(1) [of "demo_video\<lparr>duration := Some (1 / 20)\<rparr>" 1 320 180 "1 / 20"]
  by (simp add: demo_seek_times)


section \<open>Properties of batch thumbnail generation\<close>

lemma fromElement_doc_untouched:
  assumes "video_at d el = Some ve"
  shows "video_at (fromElement_doc env el chs w h d i) el = Some ve
       \<and> (\<exists>new. calls (fromElement_doc env el chs w h d i) = calls d @ new
               \<and> list_all (\<lambda>c. \<not> touches el c) new)"
proof (induction i)
  case 0
  show ?case using assms by simp
next
  case (Suc i)
  then obtain new1 where v: "video_at (fromElement_doc env el chs w h d i) el = Some ve"
    and c1: "calls (fromElement_doc env el chs w h d i) = calls d @ new1"
      "list_all (\<lambda>c. \<not> touches el c) new1"
    by blast
  from capture_untouched [OF v, of "startTime (chs ! i)" w h "capture_events env i"]
  obtain new2 where v': "video_at (fromElement_doc env el chs w h d (Suc i)) el = Some ve"
    and c2: "calls (fromElement_doc env el chs w h d (Suc i))
               = calls (fromElement_doc env el chs w h d i) @ new2"
      "list_all (\<lambda>c. \<not> touches el c) new2"
    by auto
  show ?case
    using v' c1 c2 by (intro conjI exI [of _ "new1 @ new2"]) simp_all
qed

lemma fromElement_loop_result:
  assumes "i \<le> length chs"
  shows "\<exists>r. fromElement_loop env el chs w h i (fromElement_doc env el chs w h d i) acc
               = Some (fromElement_doc env el chs w h d (length chs), acc @ r)
           \<and> length r = length chs - i
           \<and> (\<forall>k < length chs - i.
                 \<exists>outcome. fromElement_outcome env el chs w h d (i + k) = Some outcome
                    \<and> r ! k = chapter_with_thumbnail (chs ! (i + k)) outcome)"
  using assms
proof (induction "length chs - i" arbitrary: i acc)
  case 0
  then have "i = length chs" by simp
  then show ?case by (simp add: fromElement_loop.simps)
next
  case (Suc n)
  then have lt: "i < length chs" and n: "n = length chs - Suc i" and le: "Suc i \<le> length chs"
    by simp_all
  let ?c = "captureVideoFrameFromElement (fromElement_doc env el chs w h d i) el
              (startTime (chs ! i)) w h (capture_events env i)"
  from captureVideoFrameFromElement_settles obtain outcome where out: "snd ?c = Some outcome"
    by blast
  then have oi: "fromElement_outcome env el chs w h d i = Some outcome"
    by (simp add: fromElement_outcome_def)
  have stp: "fromElement_loop env el chs w h i (fromElement_doc env el chs w h d i) acc
      = fromElement_loop env el chs w h (Suc i) (fromElement_doc env el chs w h d (Suc i))
          (acc @ [chapter_with_thumbnail (chs ! i) outcome])"
    using lt out
    by (subst fromElement_loop.simps) (auto simp: Let_def split: prod.splits option.splits)
  from Suc.hyps(1) [OF n le, of "acc @ [chapter_with_thumbnail (chs ! i) outcome]"]
  obtain r where r: "fromElement_loop env el chs w h (Suc i) (fromElement_doc env el chs w h d (Suc i))
                   (acc @ [chapter_with_thumbnail (chs ! i) outcome])
               = Some (fromElement_doc env el chs w h d (length chs),
                       (acc @ [chapter_with_thumbnail (chs ! i) outcome]) @ r)"
    and len: "length r = length chs - Suc i"
    and nth: "\<forall>k < length chs - Suc i.
                 \<exists>outcome. fromElement_outcome env el chs w h d (Suc i + k) = Some outcome
                    \<and> r ! k = chapter_with_thumbnail (chs ! (Suc i + k)) outcome"
    by blast
  let ?r = "chapter_with_thumbnail (chs ! i) outcome # r"
  have "fromElement_loop env el chs w h i (fromElement_doc env el chs w h d i) acc
          = Some (fromElement_doc env el chs w h d (length chs), acc @ ?r)"
    using r by (simp add: stp)
  moreover have "length ?r = length chs - i"
    using len lt by simp
  moreover have "\<exists>outcome. fromElement_outcome env el chs w h d (i + k) = Some outcome
                    \<and> ?r ! k = chapter_with_thumbnail (chs ! (i + k)) outcome"
    if "k < length chs - i" for k
  proof (cases k)
    case 0
    then show ?thesis using oi by simp
  next
    case (Suc m)
    then have "m < length chs - Suc i" using that by simp
    with nth show ?thesis using Suc by simp
  qed
  ultimately show ?case by blast
qed

lemma url_loop_result:
  assumes "i \<le> length chs"
  shows "\<exists>r. url_loop env u chs w h i (url_doc env u chs w h d i) acc
               = Some (url_doc env u chs w h d (length chs), acc @ r)
           \<and> length r = length chs - i
           \<and> (\<forall>k < length chs - i.
                 \<exists>outcome. url_outcome env u chs w h d (i + k) = Some outcome
                    \<and> r ! k = chapter_with_thumbnail (chs ! (i + k)) outcome)"
  using assms
proof (induction "length chs - i" arbitrary: i acc)
  case 0
  then have "i = length chs" by simp
  then show ?case by (simp add: url_loop.simps)
next
  case (Suc n)
  then have lt: "i < length chs" and n: "n = length chs - Suc i" and le: "Suc i \<le> length chs"
    by simp_all
  let ?c = "captureVideoFrame (url_doc env u chs w h d i) u
              (startTime (chs ! i)) w h (capture_events env i)"
  from captureVideoFrame_settles obtain outcome where out: "snd ?c = Some outcome"
    by blast
  then have oi: "url_outcome env u chs w h d i = Some outcome"
    by (simp add: url_outcome_def)
  have stp: "url_loop env u chs w h i (url_doc env u chs w h d i) acc
      = url_loop env u chs w h (Suc i) (url_doc env u chs w h d (Suc i))
          (acc @ [chapter_with_thumbnail (chs ! i) outcome])"
    using lt out
    by (subst url_loop.simps) (auto simp: Let_def split: prod.splits option.splits)
  from Suc.hyps(1) [OF n le, of "acc @ [chapter_with_thumbnail (chs ! i) outcome]"]
  obtain r where r: "url_loop env u chs w h (Suc i) (url_doc env u chs w h d (Suc i))
                   (acc @ [chapter_with_thumbnail (chs ! i) outcome])
               = Some (url_doc env u chs w h d (length chs),
                       (acc @ [chapter_with_thumbnail (chs ! i) outcome]) @ r)"
    and len: "length r = length chs - Suc i"
    and nth: "\<forall>k < length chs - Suc i.
                 \<exists>outcome. url_outcome env u chs w h d (Suc i + k) = Some outcome
                    \<and> r ! k = chapter_with_thumbnail (chs ! (Suc i + k)) outcome"
    by blast
  let ?r = "chapter_with_thumbnail (chs ! i) outcome # r"
  have "url_loop env u chs w h i (url_doc env u chs w h d i) acc
          = Some (url_doc env u chs w h d (length chs), acc @ ?r)"
    using r by (simp add: stp)
  moreover have "length ?r = length chs - i"
    using len lt by simp
  moreover have "\<exists>outcome. url_outcome env u chs w h d (i + k) = Some outcome
                    \<and> ?r ! k = chapter_with_thumbnail (chs ! (i + k)) outcome"
    if "k < length chs - i" for k
  proof (cases k)
    case 0
    then show ?thesis using oi by simp
  next
    case (Suc m)
    then have "m < length chs - Suc i" using that by simp
    with nth show ?thesis using Suc by simp
  qed
  ultimately show ?case by blast
qed

lemma chapter_with_thumbnail_fields [simp]:
  "title (chapter_with_thumbnail ch outcome) = title ch"
  "startTime (chapter_with_thumbnail ch outcome) = startTime ch"
  "thumbnailUrl (chapter_with_thumbnail ch outcome)
     = (case outcome of Inl err \<Rightarrow> None | Inr u \<Rightarrow> Some u)"
  by (simp_all add: chapter_with_thumbnail_def split: sum.splits)

lemma prepare_video:
  assumes "video_at d el = Some ve" and "fromElement_prepare env el ve d = Some d1"
  shows "\<exists>ve1. video_at d1 el = Some ve1 \<and> paused ve1
           \<and> calls d1 = calls d @ (if paused ve then [] else [Pause el])"
  using assms
  by (auto simp: fromElement_prepare_def pause_def Let_def addEventListener_def
      removeEventListener_def split: if_splits)

lemma prepare_ready:
  assumes "2 \<le> readyState ve \<or> canplay_fires env"
  shows "\<exists>d1. fromElement_prepare env el ve d = Some d1"
  using assms by (auto simp: fromElement_prepare_def Let_def)

lemma restore_video:
  assumes "video_at d el = Some ve" and "paused ve"
    and "fromElement_restore env wasPlaying el d = Inr d'"
  shows "\<exists>ve'. video_at d' el = Some ve' \<and> currentTime ve' = 0
           \<and> paused ve' = (\<not> wasPlaying \<or> play_fails (play_result env))
           \<and> calls d' = calls d @ [SetCurrentTime el 0] @ (if wasPlaying then [Play el] else [])"
  using assms
  by (cases "play_result env")
    (auto simp: fromElement_restore_def play_def Let_def split: if_splits option.splits)

lemma restore_returns:
  assumes "\<not> wasPlaying \<or> play_result env \<noteq> PlayNoPromise"
  shows "\<exists>d'. fromElement_restore env wasPlaying el d = Inr d'"
  using assms by (cases "play_result env") (auto simp: fromElement_restore_def Let_def)

text \<open>What the batch returns, and after which documents.\<close>

lemma fromElement_batch:
  assumes v: "media_at d el = Some ve"
    and p: "fromElement_prepare env el ve d = Some d1"
    and rs: "fromElement_restore env (\<not> paused ve) el (fromElement_doc env el chs w h d1 (length chs))
               = Inr d'"
  shows "\<exists>r. generateChapterThumbnailsFromElement env d el chs w h = Returned (d', r)
           \<and> length r = length chs
           \<and> (\<forall>i < length chs.
                 \<exists>outcome. fromElement_outcome env el chs w h d1 i = Some outcome
                    \<and> r ! i = chapter_with_thumbnail (chs ! i) outcome)"
proof -
  from fromElement_loop_result [of 0 chs env el w h d1 "[]"]
  obtain r where r: "fromElement_loop env el chs w h 0 d1 []
        = Some (fromElement_doc env el chs w h d1 (length chs), r)"
    and len: "length r = length chs"
    and nth: "\<forall>k < length chs. \<exists>outcome. fromElement_outcome env el chs w h d1 k = Some outcome
                    \<and> r ! k = chapter_with_thumbnail (chs ! k) outcome"
    by auto
  have "generateChapterThumbnailsFromElement env d el chs w h = Returned (d', r)"
    using v p r rs by (simp add: generateChapterThumbnailsFromElement_def Let_def)
  then show ?thesis using len nth by blast
qed

lemma url_batch:
  "\<exists>r. generateChapterThumbnails env d u chs w h = Returned (url_doc env u chs w h d (length chs), r)
      \<and> length r = length chs
      \<and> (\<forall>i < length chs.
            \<exists>outcome. url_outcome env u chs w h d i = Some outcome
               \<and> r ! i = chapter_with_thumbnail (chs ! i) outcome)"
proof -
  from url_loop_result [of 0 chs env u w h d "[]"]
  obtain r where r: "url_loop env u chs w h 0 d [] = Some (url_doc env u chs w h d (length chs), r)"
    and len: "length r = length chs"
    and nth: "\<forall>k < length chs. \<exists>outcome. url_outcome env u chs w h d k = Some outcome
                    \<and> r ! k = chapter_with_thumbnail (chs ! k) outcome"
    by auto
  have "generateChapterThumbnails env d u chs w h
          = Returned (url_doc env u chs w h d (length chs), r)"
    using r by (simp add: generateChapterThumbnails_def)
  then show ?thesis using len nth by blast
qed

text \<open>
  C1, as the code has it. For every document (with or without a video element), every
  URL, every list of chapter definitions and every sequence of events of every capture,
  generateChapterThumbnails returns, with as many records as definitions, in the same
  order, each with the title and startTime of its definition and with the data URL of its
  capture as thumbnail, or none when the capture failed. generateChapterThumbnailsFromElement
  does the same for a media element (a video element, or an audio element, of which
  every capture fails) that is ready (readyState at least 2) or on which canplay fires,
  and that was paused or whose final play() returns a promise.
\<close>

theorem batch_returns_all_chapters:
  "(\<exists>d' r. generateChapterThumbnails env du videoUrl chs w h = Returned (d', r)
       \<and> length r = length chs
       \<and> (\<forall>i < length chs.
             title (r ! i) = title (chs ! i) \<and> startTime (r ! i) = startTime (chs ! i)
           \<and> (\<exists>outcome. url_outcome env videoUrl chs w h du i = Some outcome
                 \<and> thumbnailUrl (r ! i) = (case outcome of Inl err \<Rightarrow> None | Inr u \<Rightarrow> Some u))))
   \<and> (media_at d videoElement = Some ve
        \<and> (2 \<le> readyState ve \<or> canplay_fires env)
        \<and> (paused ve \<or> play_result env \<noteq> PlayNoPromise)
      \<longrightarrow> (\<exists>d1 d' r. fromElement_prepare env videoElement ve d = Some d1
            \<and> generateChapterThumbnailsFromElement env d videoElement chs w h = Returned (d', r)
            \<and> length r = length chs
            \<and> (\<forall>i < length chs.
                  title (r ! i) = title (chs ! i) \<and> startTime (r ! i) = startTime (chs ! i)
                \<and> (\<exists>outcome. fromElement_outcome env videoElement chs w h d1 i = Some outcome
                      \<and> thumbnailUrl (r ! i)
                           = (case outcome of Inl err \<Rightarrow> None | Inr u \<Rightarrow> Some u)))))"
proof (intro conjI impI)
  from url_batch [of env du videoUrl chs w h] obtain r where
    r: "generateChapterThumbnails env du videoUrl chs w h
          = Returned (url_doc env videoUrl chs w h du (length chs), r)"
      "length r = length chs"
      "\<forall>i < length chs. \<exists>outcome. url_outcome env videoUrl chs w h du i = Some outcome
                    \<and> r ! i = chapter_with_thumbnail (chs ! i) outcome"
    by blast
  have "title (r ! i) = title (chs ! i) \<and> startTime (r ! i) = startTime (chs ! i)
      \<and> (\<exists>outcome. url_outcome env videoUrl chs w h du i = Some outcome
            \<and> thumbnailUrl (r ! i) = (case outcome of Inl err \<Rightarrow> None | Inr u \<Rightarrow> Some u))"
    if "i < length chs" for i
    using r(3) that by fastforce
  then show "\<exists>d' r. generateChapterThumbnails env du videoUrl chs w h = Returned (d', r)
            \<and> length r = length chs
            \<and> (\<forall>i < length chs.
                  title (r ! i) = title (chs ! i) \<and> startTime (r ! i) = startTime (chs ! i)
                \<and> (\<exists>outcome. url_outcome env videoUrl chs w h du i = Some outcome
                      \<and> thumbnailUrl (r ! i) = (case outcome of Inl err \<Rightarrow> None | Inr u \<Rightarrow> Some u)))"
    using r(1,2) by blast
next
  assume a: "media_at d videoElement = Some ve
        \<and> (2 \<le> readyState ve \<or> canplay_fires env)
        \<and> (paused ve \<or> play_result env \<noteq> PlayNoPromise)"
  from a have v: "media_at d videoElement = Some ve" by simp
  from a have "2 \<le> readyState ve \<or> canplay_fires env" by simp
  from prepare_ready [OF this] obtain d1 where
    p: "fromElement_prepare env videoElement ve d = Some d1" by blast
  from restore_returns [of "\<not> paused ve" env] a obtain d' where
    rs: "fromElement_restore env (\<not> paused ve) videoElement
           (fromElement_doc env videoElement chs w h d1 (length chs)) = Inr d'"
    by auto
  from fromElement_batch [OF v p rs] obtain r where
    r: "generateChapterThumbnailsFromElement env d videoElement chs w h = Returned (d', r)"
      "length r = length chs"
      "\<forall>i < length chs. \<exists>outcome. fromElement_outcome env videoElement chs w h d1 i = Some outcome
                    \<and> r ! i = chapter_with_thumbnail (chs ! i) outcome"
    by blast
  have "title (r ! i) = title (chs ! i) \<and> startTime (r ! i) = startTime (chs ! i)
      \<and> (\<exists>outcome. fromElement_outcome env videoElement chs w h d1 i = Some outcome
            \<and> thumbnailUrl (r ! i) = (case outcome of Inl err \<Rightarrow> None | Inr u \<Rightarrow> Some u))"
    if "i < length chs" for i
    using r(3) that by fastforce
  then show "\<exists>d1 d' r. fromElement_prepare env videoElement ve d = Some d1
            \<and> generateChapterThumbnailsFromElement env d videoElement chs w h = Returned (d', r)
            \<and> length r = length chs
            \<and> (\<forall>i < length chs.
                  title (r ! i) = title (chs ! i) \<and> startTime (r ! i) = startTime (chs ! i)
                \<and> (\<exists>outcome. fromElement_outcome env videoElement chs w h d1 i = Some outcome
                      \<and> thumbnailUrl (r ! i) = (case outcome of Inl err \<Rightarrow> None | Inr u \<Rightarrow> Some u)))"
    using p r(1,2) by blast
qed

lemma batch_playback:
  assumes "video_at d videoElement = Some ve"
    and "generateChapterThumbnailsFromElement env d videoElement chs w h = Returned (d', r)"
  shows "\<exists>ve' mid. video_at d' videoElement = Some ve' \<and> currentTime ve' = 0
           \<and> paused ve' = (paused ve \<or> play_fails (play_result env))
           \<and> calls d' = calls d @ (if paused ve then [] else [Pause videoElement]) @ mid
                          @ [SetCurrentTime videoElement 0]
                          @ (if paused ve then [] else [Play videoElement])
           \<and> list_all (\<lambda>c. \<not> touches videoElement c) mid"
proof -
  from assms obtain d1 where p: "fromElement_prepare env videoElement ve d = Some d1"
    by (auto simp: generateChapterThumbnailsFromElement_def Let_def split: option.splits)
  let ?d2 = "fromElement_doc env videoElement chs w h d1 (length chs)"
  from fromElement_loop_result [of 0 chs env videoElement w h d1 "[]"]
  obtain r0 where lp: "fromElement_loop env videoElement chs w h 0 d1 [] = Some (?d2, r0)"
    by auto
  have rs: "fromElement_restore env (\<not> paused ve) videoElement ?d2 = Inr d'"
    using assms p lp
    by (auto simp: generateChapterThumbnailsFromElement_def Let_def split: sum.splits)
  from prepare_video [OF assms(1) p] obtain ve1 where
    v1: "video_at d1 videoElement = Some ve1" "paused ve1"
    and c1: "calls d1 = calls d @ (if paused ve then [] else [Pause videoElement])"
    by blast
  from fromElement_doc_untouched [OF v1(1), of env chs w h "length chs"] obtain mid where
    v2: "video_at ?d2 videoElement = Some ve1"
    and c2: "calls ?d2 = calls d1 @ mid" "list_all (\<lambda>c. \<not> touches videoElement c) mid"
    by blast
  from restore_video [OF v2 v1(2) rs] obtain ve' where
    v3: "video_at d' videoElement = Some ve'" "currentTime ve' = 0"
      "paused ve' = (\<not> \<not> paused ve \<or> play_fails (play_result env))"
    and c3: "calls d' = calls ?d2 @ [SetCurrentTime videoElement 0]
                @ (if \<not> paused ve then [Play videoElement] else [])"
    by blast
  have "calls d' = calls d @ (if paused ve then [] else [Pause videoElement]) @ mid
                          @ [SetCurrentTime videoElement 0]
                          @ (if paused ve then [] else [Play videoElement])"
    using c1 c2(1) c3 by simp
  then show ?thesis
    using v3 c2(2) by auto
qed

text \<open>
  C5, as the code has it. When generateChapterThumbnailsFromElement returns, the position
  of the supplied element is 0. An element that was paused is still paused and was
  neither paused nor played by the operation. An element that was playing was paused
  before the first capture and one play request is made at the end, after the position is
  reset; it plays again unless the browser rejects that request, in which case it is left
  paused. No capture in between touches the element.
\<close>

theorem batch_restores_playback:
  assumes "video_at d videoElement = Some ve"
    and "generateChapterThumbnailsFromElement env d videoElement chs w h = Returned (d', r)"
  shows "\<exists>ve' mid. video_at d' videoElement = Some ve' \<and> currentTime ve' = 0
           \<and> paused ve' = (paused ve \<or> play_fails (play_result env))
           \<and> calls d' = calls d @ (if paused ve then [] else [Pause videoElement]) @ mid
                          @ [SetCurrentTime videoElement 0]
                          @ (if paused ve then [] else [Play videoElement])
           \<and> list_all (\<lambda>c. \<not> touches videoElement c) mid"
  using assms by (rule batch_playback)

subsection \<open>Batches on the example page\<close>

lemma timeout_outcome:
  assumes "video_at d el = Some ve"
  shows "snd (captureVideoFrameFromElement d el t w h [])
           = Some (Inl (Error ''Timeout while capturing video frame''))"
proof -
  from el_executor_Inr [OF assms, of t w h]
  obtain s0 where ex: "el_executor d el t w h = Inr s0"
    and f [simp]: "timers s0 = [(1, Timeout_cb)]" "timeoutId s0 = Some 1"
      "\<not> resolved s0" "settled s0 = None"
    by auto
  show ?thesis
    by (simp add: el_eval ex)
qed

lemma url_timeout_outcome:
  "snd (captureVideoFrame d u t w h []) = Some (Inl (Error ''Timeout while capturing video frame''))"
  by (simp add: url_eval)

lemma records_without_thumbnail:
  assumes "length r = length chs"
    and "\<And>i. i < length chs \<Longrightarrow>
           title (r ! i) = title (chs ! i) \<and> startTime (r ! i) = startTime (chs ! i)
         \<and> thumbnailUrl (r ! i) = None"
  shows "r = map (\<lambda>c. \<lparr>title = title c, startTime = startTime c, thumbnailUrl = None\<rparr>) chs"
proof (rule nth_equalityI)
  show "length r = length (map (\<lambda>c. \<lparr>title = title c, startTime = startTime c,
      thumbnailUrl = None\<rparr>) chs)"
    using assms(1) by simp
next
  fix i assume "i < length r"
  then have i: "i < length chs" using assms(1) by simp
  from assms(2) [OF i] show "r ! i = map (\<lambda>c. \<lparr>title = title c, startTime = startTime c,
      thumbnailUrl = None\<rparr>) chs ! i"
    using i by (cases "r ! i") simp
qed

lemma silent_outcomes:
  assumes "video_at d1 el = Some ve"
  shows "fromElement_outcome silent_env el chs w h d1 i
           = Some (Inl (Error ''Timeout while capturing video frame''))"
    and "url_outcome silent_env u chs w h d i
           = Some (Inl (Error ''Timeout while capturing video frame''))"
proof -
  from fromElement_doc_untouched [OF assms, of silent_env chs w h i]
  have "video_at (fromElement_doc silent_env el chs w h d1 i) el = Some ve" by blast
  from timeout_outcome [OF this]
  show "fromElement_outcome silent_env el chs w h d1 i
           = Some (Inl (Error ''Timeout while capturing video frame''))"
    by (simp add: fromElement_outcome_def silent_env_def)
  show "url_outcome silent_env u chs w h d i
           = Some (Inl (Error ''Timeout while capturing video frame''))"
    by (simp add: url_outcome_def silent_env_def url_timeout_outcome)
qed

text \<open>
  An element that is not a video element: every capture rejects at once and leaves the
  document as it is.
\<close>

lemma not_video_outcomes:
  assumes "video_at d1 el = None"
  shows "fromElement_doc env el chs w h d1 i = d1"
    and "fromElement_outcome env el chs w h d1 i
           = Some (Inl (Error ''Invalid video element provided''))"
proof -
  have c: "captureVideoFrameFromElement d1 el t w h evs
             = (d1, Some (Inl (Error ''Invalid video element provided'')))" for t evs
    using assms by (simp add: captureVideoFrameFromElement_def el_executor_def)
  show d: "fromElement_doc env el chs w h d1 i = d1"
    by (induction i) (simp_all add: c)
  show "fromElement_outcome env el chs w h d1 i
           = Some (Inl (Error ''Invalid video element provided''))"
    by (simp add: fromElement_outcome_def d c)
qed

lemma audio_page_media:
  "media_at audio_page 0 = Some demo_video" "video_at audio_page 0 = None"
  "fromElement_prepare silent_env 0 demo_video audio_page = Some audio_page"
  by (simp_all add: audio_page_def media_at_def video_at_def fromElement_prepare_def)

theorem batch_returns_all_chapters_witness:
  "video_at empty_page 0 = None
   \<and> map_option snd (returned (generateChapterThumbnails silent_env empty_page ''/test-video.mp4''
        five_chapters 320 180)) = Some equal_chapters
   \<and> media_at demo_page 0 = Some demo_video
   \<and> 2 \<le> readyState demo_video \<and> paused demo_video
   \<and> map_option snd (returned (generateChapterThumbnailsFromElement silent_env demo_page 0
        five_chapters 320 180)) = Some equal_chapters
   \<and> media_at audio_page 0 = Some demo_video \<and> video_at audio_page 0 = None
   \<and> map_option snd (returned (generateChapterThumbnailsFromElement silent_env audio_page 0
        five_chapters 320 180)) = Some equal_chapters"
proof -
  let ?chs = "five_chapters"
  have hv: "video_at demo_page 0 = Some demo_video"
    by (simp add: demo_page_of)
  have h: "media_at demo_page 0 = Some demo_video
        \<and> (2 \<le> readyState demo_video \<or> canplay_fires silent_env)
        \<and> (paused demo_video \<or> play_result silent_env \<noteq> PlayNoPromise)"
    using hv by simp
  have ha: "media_at audio_page 0 = Some demo_video
        \<and> (2 \<le> readyState demo_video \<or> canplay_fires silent_env)
        \<and> (paused demo_video \<or> play_result silent_env \<noteq> PlayNoPromise)"
    by (simp add: audio_page_media)
  note t = batch_returns_all_chapters [of silent_env empty_page "''/test-video.mp4''" ?chs 320 180
      demo_page 0 demo_video]
  note ta = batch_returns_all_chapters [of silent_env empty_page "''/test-video.mp4''" ?chs 320 180
      audio_page 0 demo_video]
  from t h obtain d1 d' r where
    p: "fromElement_prepare silent_env 0 demo_video demo_page = Some d1"
    and r: "generateChapterThumbnailsFromElement silent_env demo_page 0 ?chs 320 180
              = Returned (d', r)" "length r = length ?chs"
      "\<forall>i < length ?chs.
          title (r ! i) = title (?chs ! i) \<and> startTime (r ! i) = startTime (?chs ! i)
        \<and> (\<exists>outcome. fromElement_outcome silent_env 0 ?chs 320 180 d1 i = Some outcome
              \<and> thumbnailUrl (r ! i) = (case outcome of Inl err \<Rightarrow> None | Inr u \<Rightarrow> Some u))"
    by blast
  from ta ha obtain a1 a' ra where
    pa: "fromElement_prepare silent_env 0 demo_video audio_page = Some a1"
    and ra: "generateChapterThumbnailsFromElement silent_env audio_page 0 ?chs 320 180
              = Returned (a', ra)" "length ra = length ?chs"
      "\<forall>i < length ?chs.
          title (ra ! i) = title (?chs ! i) \<and> startTime (ra ! i) = startTime (?chs ! i)
        \<and> (\<exists>outcome. fromElement_outcome silent_env 0 ?chs 320 180 a1 i = Some outcome
              \<and> thumbnailUrl (ra ! i) = (case outcome of Inl err \<Rightarrow> None | Inr u \<Rightarrow> Some u))"
    by blast
  from t obtain d'' r' where
    r': "generateChapterThumbnails silent_env empty_page ''/test-video.mp4'' ?chs 320 180
              = Returned (d'', r')" "length r' = length ?chs"
      "\<forall>i < length ?chs.
          title (r' ! i) = title (?chs ! i) \<and> startTime (r' ! i) = startTime (?chs ! i)
        \<and> (\<exists>outcome. url_outcome silent_env ''/test-video.mp4'' ?chs 320 180 empty_page i
                = Some outcome
              \<and> thumbnailUrl (r' ! i) = (case outcome of Inl err \<Rightarrow> None | Inr u \<Rightarrow> Some u))"
    by blast
  from prepare_video [OF hv p] obtain ve1 where v1: "video_at d1 0 = Some ve1" by blast
  have "r = equal_chapters"
    unfolding equal_chapters_def
    using r(2) r(3) silent_outcomes(1) [OF v1] by (intro records_without_thumbnail) auto
  moreover have "r' = equal_chapters"
    unfolding equal_chapters_def
    using r'(2) r'(3) silent_outcomes(2) [OF v1] by (intro records_without_thumbnail) auto
  moreover have "a1 = audio_page" using pa by (simp add: audio_page_media)
  then have "video_at a1 0 = None" by (simp add: audio_page_media)
  then have "ra = equal_chapters"
    unfolding equal_chapters_def
    using ra(2) ra(3) not_video_outcomes(2) [of a1 0 silent_env ?chs 320 180]
    by (intro records_without_thumbnail) auto
  moreover have "video_at empty_page 0 = None"
    by (simp add: empty_page_def video_at_def)
  ultimately show ?thesis
    using h r(1) r'(1) ra(1) by (simp add: audio_page_media)
qed

text \<open>
  C1 as stated fails: on a video element that has only its metadata (readyState 1) and on
  which canplay never fires, generateChapterThumbnailsFromElement waits for canplay without
  a timeout and never returns.
\<close>

theorem batch_never_returns_counterexample:
  "video_at (page_of unready_video) 0 = Some unready_video
   \<and> readyState unready_video = 1
   \<and> \<not> canplay_fires silent_env
   \<and> generateChapterThumbnailsFromElement silent_env (page_of unready_video) 0
        five_chapters 320 180 = Pending"
  by (simp add: generateChapterThumbnailsFromElement_def fromElement_prepare_def
      unready_video_def silent_env_def Let_def)

lemma example_batch_returns:
  assumes "canplay_fires env" and "play_result env \<noteq> PlayNoPromise"
  shows "\<exists>d' r. generateChapterThumbnailsFromElement env (page_of playing_video) 0 chs w h
                  = Returned (d', r)"
proof -
  have v: "video_at (page_of playing_video) 0 = Some playing_video" by simp
  from prepare_ready [of playing_video env 0 "page_of playing_video"] assms(1)
  obtain d1 where p: "fromElement_prepare env 0 playing_video (page_of playing_video) = Some d1"
    by blast
  from restore_returns [of "\<not> paused playing_video" env] assms(2) obtain d' where
    "fromElement_restore env (\<not> paused playing_video) 0
       (fromElement_doc env 0 chs w h d1 (length chs)) = Inr d'"
    by auto
  from fromElement_batch [OF media_at_video [OF v] p this] show ?thesis by blast
qed

theorem batch_restores_playback_witness:
  "video_at (page_of playing_video) 0 = Some playing_video
   \<and> \<not> paused playing_video
   \<and> map_option (\<lambda>(d', r). map_option paused (video_at d' 0))
        (returned (generateChapterThumbnailsFromElement resolving_env (page_of playing_video) 0
           five_chapters 320 180)) = Some (Some False)
   \<and> map_option (\<lambda>(d', r). map_option currentTime (video_at d' 0))
        (returned (generateChapterThumbnailsFromElement resolving_env (page_of playing_video) 0
           five_chapters 320 180)) = Some (Some 0)"
proof -
  have v: "video_at (page_of playing_video) 0 = Some playing_video" by simp
  have np: "\<not> paused playing_video" by (simp add: playing_video_def)
  from example_batch_returns [of resolving_env "five_chapters" 320 180]
  obtain d' r where ret:
    "generateChapterThumbnailsFromElement resolving_env (page_of playing_video) 0
       five_chapters 320 180 = Returned (d', r)"
    by (auto simp: resolving_env_def)
  from batch_restores_playback [OF v ret] obtain ve' where
    "video_at d' 0 = Some ve'" "currentTime ve' = 0"
    "paused ve' = (paused playing_video \<or> play_fails (play_result resolving_env))"
    by blast
  then show ?thesis
    using v np ret by (simp add: resolving_env_def)
qed

text \<open>
  C5 as stated fails: a video that was playing is paused for the captures, and when the
  browser rejects the final play request the rejection is swallowed and the video is left
  paused.
\<close>

theorem batch_leaves_paused_counterexample:
  "video_at (page_of playing_video) 0 = Some playing_video
   \<and> \<not> paused playing_video
   \<and> map_option (\<lambda>(d', r). map_option paused (video_at d' 0))
        (returned (generateChapterThumbnailsFromElement rejecting_env (page_of playing_video) 0
           five_chapters 320 180)) = Some (Some True)"
proof -
  have v: "video_at (page_of playing_video) 0 = Some playing_video" by simp
  have np: "\<not> paused playing_video" by (simp add: playing_video_def)
  from example_batch_returns [of rejecting_env "five_chapters" 320 180]
  obtain d' r where ret:
    "generateChapterThumbnailsFromElement rejecting_env (page_of playing_video) 0
       five_chapters 320 180 = Returned (d', r)"
    by (auto simp: rejecting_env_def)
  from batch_playback [OF v ret] obtain ve' where
    "video_at d' 0 = Some ve'"
    "paused ve' = (paused playing_video \<or> play_fails (play_result rejecting_env))"
    by blast
  then show ?thesis
    using v np ret by (simp add: rejecting_env_def)
qed


end
